theory Spec2Isabelle
  imports Main "HOL-Library.Word" "HOL-Library.Monad_Syntax"
begin

unbundle bit_operations_syntax

section \<open>Machine types\<close>

text \<open>
  Doc-ids and posting values are \<^verbatim>\<open>uint32_t\<close>, hashes are \<^verbatim>\<open>uint64_t\<close>. Array lengths
  and loop indices (\<^verbatim>\<open>uint32_t\<close> or \<^verbatim>\<open>size_t\<close> in the source) only ever count elements of
  an array that is held in memory; they are natural numbers here, and so are the
  capacities of the builder's tables and lists. The capacity of the evaluator's output
  vector, which \<^verbatim>\<open>reserve\<close> doubles up to a requested size, is the \<^verbatim>\<open>uint32_t\<close> it is in
  the source. Heap allocation (\<^verbatim>\<open>malloc\<close>, \<^verbatim>\<open>realloc\<close>, \<^verbatim>\<open>calloc\<close>) is taken to succeed.
\<close>

type_synonym u32 = "32 word"
type_synonym u64 = "64 word"

text \<open>
  Reading or writing outside an array or a buffer is undefined in the source; it is the
  error value \<open>BadRead\<close> here, so that a result \<open>Inr\<close> says that every access was inside.
  \<open>Exit n\<close> is \<^verbatim>\<open>std::exit(n)\<close>.
\<close>

datatype error = BadRead | Exit nat

text \<open>
  \<^verbatim>\<open>memcmp(a, b, n)\<close> on two buffers, each given from the cell its pointer addresses:
  the sign of the difference of the first pair of bytes (as \<^verbatim>\<open>unsigned char\<close>) that differ.
\<close>

fun memcmp :: "string \<Rightarrow> string \<Rightarrow> nat \<Rightarrow> error + int" where
  "memcmp a b 0 = Inr 0"
| "memcmp (x # xs) (y # ys) (Suc n) =
     (if x = y then memcmp xs ys n else Inr (int (of_char x) - int (of_char y)))"
| "memcmp a b (Suc n) = Inl BadRead"

text \<open>The byte \<^verbatim>\<open>'\0'\<close>.\<close>

definition NUL :: char where "NUL = CHR 0x00"

text \<open>The character classes every source file defines for itself, in the same words.\<close>

definition is_ascii_alnum :: "char \<Rightarrow> bool" where
  "is_ascii_alnum c =
     (let n = (of_char c :: nat) in
      (of_char (CHR ''0'') \<le> n \<and> n \<le> of_char (CHR ''9'')) \<or>
      (of_char (CHR ''A'') \<le> n \<and> n \<le> of_char (CHR ''Z'')) \<or>
      (of_char (CHR ''a'') \<le> n \<and> n \<le> of_char (CHR ''z'')))"

definition to_lower_ascii :: "char \<Rightarrow> char" where
  "to_lower_ascii c =
     (let n = (of_char c :: nat) in
      if of_char (CHR ''A'') \<le> n \<and> n \<le> of_char (CHR ''Z'')
      then char_of (n - of_char (CHR ''A'') + of_char (CHR ''a''))
      else c)"

section \<open>Posting lists of the builder (indexer.cpp, U32List)\<close>

text \<open>
  \<^verbatim>\<open>struct U32List { uint32_t* a; uint32_t n; uint32_t cap; }\<close>. The field \<open>ul_a\<close> is
  the whole allocated array (\<open>ul_cap\<close> cells), of which the first \<open>ul_n\<close> are in use.
  A cell that \<^verbatim>\<open>realloc\<close> adds holds 0 until it is written; it is never read before.
\<close>

record U32List =
  ul_a :: "u32 list"
  ul_n :: nat
  ul_cap :: nat

text \<open>\<^verbatim>\<open>U32List{}\<close>: the default member initialisers.\<close>

definition U32List_init :: U32List where
  "U32List_init = \<lparr>ul_a = [], ul_n = 0, ul_cap = 0\<rparr>"

definition ul_grow :: "U32List \<Rightarrow> U32List" where
  "ul_grow l =
     (if ul_n l = ul_cap l then
        (let new_cap = (if ul_cap l \<noteq> 0 then ul_cap l * 2 else 8)
         in l\<lparr>ul_a := ul_a l @ replicate (new_cap - ul_cap l) 0, ul_cap := new_cap\<rparr>)
      else l)"

definition push_unique_sorted :: "U32List \<Rightarrow> u32 \<Rightarrow> U32List" where
  "push_unique_sorted l v =
     (if ul_n l > 0 \<and> ul_a l ! (ul_n l - 1) = v then l
      else (let l1 = ul_grow l
            in l1\<lparr>ul_a := (ul_a l1)[ul_n l1 := v], ul_n := ul_n l1 + 1\<rparr>))"

text \<open>The posting list a \<open>U32List\<close> stands for: the cells in use.\<close>

definition ul_list :: "U32List \<Rightarrow> u32 list" where
  "ul_list l = take (ul_n l) (ul_a l)"

definition ul_wf :: "U32List \<Rightarrow> bool" where
  "ul_wf l = (ul_n l \<le> ul_cap l \<and> length (ul_a l) = ul_cap l)"

section \<open>The hash tables of the builder (indexer.cpp, TermTable and DocTermSet)\<close>

text \<open>
  Both tables are open-addressed arrays of \<^verbatim>\<open>cap\<close> slots; a slot with hash 0 is empty.
  \<^verbatim>\<open>size_t\<close> values (\<^verbatim>\<open>cap\<close>, \<^verbatim>\<open>used\<close>, \<^verbatim>\<open>mask\<close>, \<^verbatim>\<open>pos\<close>) are natural numbers; \<open>msk\<close>
  is the source's \<^verbatim>\<open>mask = cap - 1\<close>. A probe loop that finds no slot runs forever: the loops
  are partial functions, \<open>None\<close> when they do not return.

  The terms live in an \<^verbatim>\<open>Arena\<close>, a buffer that \<^verbatim>\<open>add\<close> appends to and \<^verbatim>\<open>realloc\<close>s when it is
  full. \<open>ar_buf\<close> names the buffer the arena holds: \<^verbatim>\<open>realloc\<close> frees the old buffer and
  gives a new one. An entry's \<^verbatim>\<open>term\<close> points into the buffer that was current when the term
  was stored: the entry keeps the bytes stored there (\<open>te_term\<close>) and the name of that
  buffer (\<open>te_buf\<close>). Reading the term of an entry whose buffer is no longer the arena's
  reads freed memory: \<open>BadRead\<close>.
\<close>

record Arena =
  ar_buf :: nat
  ar_cap :: nat
  ar_used :: nat

definition Arena_init :: "nat \<Rightarrow> Arena" where
  "Arena_init cap_bytes = \<lparr>ar_buf = 0, ar_cap = cap_bytes, ar_used = 0\<rparr>"

definition Arena_reset :: "Arena \<Rightarrow> Arena" where
  "Arena_reset a = a\<lparr>ar_used := 0\<rparr>"

text \<open>\<open>arena_grow\<close> is the loop \<^verbatim>\<open>while (used + need > new_cap) new_cap *= 2;\<close> of \<^verbatim>\<open>add\<close>.\<close>

partial_function (option) arena_grow :: "nat \<Rightarrow> nat \<Rightarrow> nat option" where
  "arena_grow want new_cap =
     (if want > new_cap then arena_grow want (new_cap * 2) else Some new_cap)"

declare arena_grow.simps [code]

definition Arena_add :: "Arena \<Rightarrow> int \<Rightarrow> Arena option" where
  "Arena_add a len =
     (let need = nat len + 1 in
      if ar_used a + need > ar_cap a then
        (case arena_grow (ar_used a + need) (if ar_cap a \<noteq> 0 then ar_cap a else 2 ^ 20) of
           None \<Rightarrow> None
         | Some new_cap \<Rightarrow>
             Some \<lparr>ar_buf = ar_buf a + 1, ar_cap = new_cap, ar_used = ar_used a + need\<rparr>)
      else Some (a\<lparr>ar_used := ar_used a + need\<rparr>))"

definition fnv1a_64 :: "string \<Rightarrow> int \<Rightarrow> u64" where
  "fnv1a_64 s len =
     (let h = foldl (\<lambda>h c. (h XOR word_of_nat (of_char c)) * 1099511628211)
                (1469598103934665603 :: u64) (take (nat len) s)
      in if h \<noteq> 0 then h else 1)"

record TermEntry =
  te_hash :: u64
  te_term :: string
  te_buf :: nat
  te_len :: nat
  te_post :: U32List

definition TermEntry_zero :: TermEntry where
  "TermEntry_zero = \<lparr>te_hash = 0, te_term = [], te_buf = 0, te_len = 0, te_post = U32List_init\<rparr>"

record TermTable =
  tt_tab :: "TermEntry list"
  tt_cap :: nat
  tt_used :: nat
  tt_arena :: Arena

definition TermTable_init :: "nat \<Rightarrow> nat \<Rightarrow> TermTable" where
  "TermTable_init cap_pow2 arena_bytes =
     \<lparr>tt_tab = replicate cap_pow2 TermEntry_zero, tt_cap = cap_pow2, tt_used = 0,
      tt_arena = Arena_init arena_bytes\<rparr>"

definition TermTable_clear :: "TermTable \<Rightarrow> TermTable" where
  "TermTable_clear tt =
     tt\<lparr>tt_tab := map (\<lambda>e. \<lparr>te_hash = 0, te_term = [], te_buf = 0, te_len = 0,
                              te_post = (if te_hash e \<noteq> 0 then U32List_init else te_post e)\<rparr>)
                    (tt_tab tt),
        tt_used := 0, tt_arena := Arena_reset (tt_arena tt)\<rparr>"

text \<open>
  \<^verbatim>\<open>maybe_grow\<close>: \<open>find_free\<close> is the inner loop \<^verbatim>\<open>while (tab[pos].hash != 0) pos = (pos + 1) & mask;\<close>
  and \<open>rehash\<close> the loop over the old slots.
\<close>

partial_function (option) find_free :: "TermEntry list \<Rightarrow> nat \<Rightarrow> nat \<Rightarrow> nat option" where
  "find_free tab msk pos =
     (if te_hash (tab ! pos) \<noteq> 0 then find_free tab msk ((pos + 1) AND msk) else Some pos)"

declare find_free.simps [code]

fun rehash ::
  "TermEntry list \<Rightarrow> TermEntry list \<times> nat \<times> nat \<Rightarrow> (TermEntry list \<times> nat \<times> nat) option" where
  "rehash [] st = Some st"
| "rehash (e # old) (tab, cap, used) =
     (if te_hash e \<noteq> 0 then
        (let msk = cap - 1; pos0 = unat (te_hash e) AND msk in
         case find_free tab msk pos0 of
           None \<Rightarrow> None
         | Some pos \<Rightarrow> rehash old (tab[pos := e], cap, used + 1))
      else rehash old (tab, cap, used))"

definition maybe_grow :: "TermTable \<Rightarrow> TermTable option" where
  "maybe_grow tt =
     (if tt_used tt * 10 < tt_cap tt * 7 then Some tt
      else (let new_cap = tt_cap tt * 2;
                old = tt_tab tt;
                old_cap = tt_cap tt
            in case rehash (take old_cap old) (replicate new_cap TermEntry_zero, new_cap, 0) of
                 None \<Rightarrow> None
               | Some (tab, cap, used) \<Rightarrow> Some (tt\<lparr>tt_tab := tab, tt_cap := cap, tt_used := used\<rparr>)))"

text \<open>
  \<^verbatim>\<open>get_or_create\<close>: \<open>tt_probe\<close> is the \<^verbatim>\<open>while (1)\<close> loop up to its \<^verbatim>\<open>return\<close>; it yields
  the slot and whether the slot was empty. \<open>buf\<close> is the arena's current buffer: the
  \<^verbatim>\<open>memcmp\<close>, reached when hash and length agree, reads the entry's term. The entry is
  returned as its index (\<open>None\<close> for \<^verbatim>\<open>nullptr\<close>).
\<close>

partial_function (option) tt_probe ::
  "TermEntry list \<Rightarrow> nat \<Rightarrow> nat \<Rightarrow> u64 \<Rightarrow> string \<Rightarrow> int \<Rightarrow> nat \<Rightarrow> (error + bool \<times> nat) option" where
  "tt_probe tab buf msk h s len pos =
     (if te_hash (tab ! pos) = 0 then Some (Inr (True, pos))
      else if te_hash (tab ! pos) = h \<and> te_len (tab ! pos) = nat len mod 65536 then
        (if te_buf (tab ! pos) \<noteq> buf then Some (Inl BadRead)
         else if memcmp (te_term (tab ! pos)) s (nat len) = Inr 0 then Some (Inr (False, pos))
         else tt_probe tab buf msk h s len ((pos + 1) AND msk))
      else tt_probe tab buf msk h s len ((pos + 1) AND msk))"

declare tt_probe.simps [code]

definition get_or_create ::
  "TermTable \<Rightarrow> string \<Rightarrow> int \<Rightarrow> (error + TermTable \<times> nat option) option" where
  "get_or_create tt0 s len =
     (if len \<le> 0 then Some (Inr (tt0, None))
      else
        (case maybe_grow tt0 of
           None \<Rightarrow> None
         | Some tt \<Rightarrow>
             (let h = fnv1a_64 s len;
                  msk = tt_cap tt - 1;
                  pos0 = unat h AND msk
              in case tt_probe (tt_tab tt) (ar_buf (tt_arena tt)) msk h s len pos0 of
                   None \<Rightarrow> None
                 | Some (Inl e) \<Rightarrow> Some (Inl e)
                 | Some (Inr (fresh, pos)) \<Rightarrow>
                     if fresh then
                       (case Arena_add (tt_arena tt) len of
                          None \<Rightarrow> None
                        | Some arena \<Rightarrow>
                            Some (Inr (tt\<lparr>tt_tab := (tt_tab tt)[pos :=
                                        \<lparr>te_hash = h, te_term = take (nat len) s @ [NUL],
                                         te_buf = ar_buf arena, te_len = nat len mod 65536,
                                         te_post = U32List_init\<rparr>],
                                      tt_used := tt_used tt + 1, tt_arena := arena\<rparr>,
                                  Some pos)))
                     else Some (Inr (tt, Some pos)))))"

definition approx_mem_bytes :: "TermTable \<Rightarrow> nat" where
  "approx_mem_bytes tt =
     tt_cap tt * 40 + ar_used (tt_arena tt) +
     sum_list (map (\<lambda>e. if te_hash e \<noteq> 0 then ul_cap (te_post e) * 4 else 0)
                 (take (tt_cap tt) (tt_tab tt)))"

record DocSetEntry =
  de_hash :: u64
  de_term :: string
  de_buf :: nat
  de_len :: nat

definition DocSetEntry_zero :: DocSetEntry where
  "DocSetEntry_zero = \<lparr>de_hash = 0, de_term = [], de_buf = 0, de_len = 0\<rparr>"

record DocTermSet =
  ds_tab :: "DocSetEntry list"
  ds_cap :: nat
  ds_used :: nat
  ds_arena :: Arena

definition DocTermSet_init :: "nat \<Rightarrow> nat \<Rightarrow> DocTermSet" where
  "DocTermSet_init cap_pow2 arena_bytes =
     \<lparr>ds_tab = replicate cap_pow2 DocSetEntry_zero, ds_cap = cap_pow2, ds_used = 0,
      ds_arena = Arena_init arena_bytes\<rparr>"

definition DocTermSet_reset :: "DocTermSet \<Rightarrow> DocTermSet" where
  "DocTermSet_reset ds =
     ds\<lparr>ds_tab := replicate (ds_cap ds) DocSetEntry_zero, ds_used := 0,
        ds_arena := Arena_reset (ds_arena ds)\<rparr>"

partial_function (option) ds_probe ::
  "DocSetEntry list \<Rightarrow> nat \<Rightarrow> nat \<Rightarrow> u64 \<Rightarrow> string \<Rightarrow> int \<Rightarrow> nat \<Rightarrow> (error + bool \<times> nat) option" where
  "ds_probe tab buf msk h s len pos =
     (if de_hash (tab ! pos) = 0 then Some (Inr (True, pos))
      else if de_hash (tab ! pos) = h \<and> de_len (tab ! pos) = nat len mod 65536 then
        (if de_buf (tab ! pos) \<noteq> buf then Some (Inl BadRead)
         else if memcmp (de_term (tab ! pos)) s (nat len) = Inr 0 then Some (Inr (False, pos))
         else ds_probe tab buf msk h s len ((pos + 1) AND msk))
      else ds_probe tab buf msk h s len ((pos + 1) AND msk))"

declare ds_probe.simps [code]

text \<open>\<^verbatim>\<open>contains_or_add\<close> returns 1 for "already present" and 0 otherwise, with the set it leaves.\<close>

definition contains_or_add ::
  "DocTermSet \<Rightarrow> string \<Rightarrow> int \<Rightarrow> (error + int \<times> DocTermSet) option" where
  "contains_or_add ds s len =
     (if len \<le> 0 then Some (Inr (1, ds))
      else if ds_used ds * 10 \<ge> ds_cap ds * 8 then Some (Inr (0, ds))
      else
        (let h = fnv1a_64 s len;
             msk = ds_cap ds - 1;
             pos0 = unat h AND msk
         in case ds_probe (ds_tab ds) (ar_buf (ds_arena ds)) msk h s len pos0 of
              None \<Rightarrow> None
            | Some (Inl e) \<Rightarrow> Some (Inl e)
            | Some (Inr (fresh, pos)) \<Rightarrow>
                if fresh then
                  (case Arena_add (ds_arena ds) len of
                     None \<Rightarrow> None
                   | Some arena \<Rightarrow>
                       Some (Inr (0, ds\<lparr>ds_tab := (ds_tab ds)[pos :=
                                           \<lparr>de_hash = h, de_term = take (nat len) s @ [NUL],
                                            de_buf = ar_buf arena, de_len = nat len mod 65536\<rparr>],
                                         ds_used := ds_used ds + 1, ds_arena := arena\<rparr>)))
                else Some (Inr (1, ds))))"

text \<open>
  For the proofs: the number of occupied slots, the states of the table between two
  calls (\<open>tt_wf\<close>) and after \<^verbatim>\<open>maybe_grow\<close> (\<open>tt_ready\<close>).
\<close>

definition tt_occ :: "TermEntry list \<Rightarrow> nat" where
  "tt_occ tab = length (filter (\<lambda>e. te_hash e \<noteq> 0) tab)"

definition tt_wf :: "TermTable \<Rightarrow> bool" where
  "tt_wf tt =
     ((\<exists>k. tt_cap tt = 2 ^ k) \<and> length (tt_tab tt) = tt_cap tt \<and>
      tt_used tt = tt_occ (tt_tab tt) \<and> (tt_used tt - 1) * 10 < tt_cap tt * 7)"

definition tt_ready :: "TermTable \<Rightarrow> bool" where
  "tt_ready tt =
     ((\<exists>k. tt_cap tt = 2 ^ k) \<and> length (tt_tab tt) = tt_cap tt \<and>
      tt_used tt = tt_occ (tt_tab tt) \<and> tt_used tt * 10 < tt_cap tt * 7)"

text \<open>
  A table of two slots holding two terms, past the 70% mark, and the table \<^verbatim>\<open>maybe_grow\<close>
  makes of it: both terms hash to slot 1 of 4. \<open>example_entry\<close> is the entry
  \<^verbatim>\<open>get_or_create\<close> stores for a new term.
\<close>

definition example_entry :: "string \<Rightarrow> TermEntry" where
  "example_entry w =
     \<lparr>te_hash = fnv1a_64 w (int (length w)), te_term = w @ [NUL], te_buf = 0,
      te_len = length w, te_post = U32List_init\<rparr>"

definition example_tt :: TermTable where
  "example_tt =
     \<lparr>tt_tab = [example_entry ''world'', example_entry ''hello''],
      tt_cap = 2, tt_used = 2, tt_arena = \<lparr>ar_buf = 0, ar_cap = 64, ar_used = 12\<rparr>\<rparr>"

definition example_grown :: TermTable where
  "example_grown =
     \<lparr>tt_tab = [TermEntry_zero, example_entry ''world'', example_entry ''hello'', TermEntry_zero],
      tt_cap = 4, tt_used = 2, tt_arena = \<lparr>ar_buf = 0, ar_cap = 64, ar_used = 12\<rparr>\<rparr>"

section \<open>Indexing one document (indexer.cpp, process_one_doc)\<close>

text \<open>
  The file is the bytes \<^verbatim>\<open>fread\<close> delivers, in order (\<open>None\<close>: it cannot be opened). The
  token buffer \<^verbatim>\<open>tok\<close> is the list of the \<^verbatim>\<open>tok_len\<close> bytes collected; it is passed on with
  its terminator. \<open>index_token\<close> is the block run for every finished token; the entry
  \<^verbatim>\<open>get_or_create\<close> returns is updated in place by \<^verbatim>\<open>push_unique_sorted\<close> (\<open>tt_push_doc\<close>).
  The byte and token counters feed the progress lines only and are left out.
\<close>

definition tt_push_doc :: "TermTable \<Rightarrow> nat option \<Rightarrow> u32 \<Rightarrow> TermTable" where
  "tt_push_doc tt e doc_id =
     (case e of
        None \<Rightarrow> tt
      | Some pos \<Rightarrow>
          tt\<lparr>tt_tab := (tt_tab tt)[pos :=
                 (tt_tab tt ! pos)\<lparr>te_post := push_unique_sorted (te_post (tt_tab tt ! pos)) doc_id\<rparr>]\<rparr>)"

definition index_token ::
  "DocTermSet \<Rightarrow> TermTable \<Rightarrow> string \<Rightarrow> int \<Rightarrow> u32 \<Rightarrow>
   (error + DocTermSet \<times> TermTable) option" where
  "index_token dset tt tok tok_len doc_id =
     (case contains_or_add dset tok tok_len of
        None \<Rightarrow> None
      | Some (Inl err) \<Rightarrow> Some (Inl err)
      | Some (Inr (already, dset')) \<Rightarrow>
          if already = 0 then
            (case get_or_create tt tok tok_len of
               None \<Rightarrow> None
             | Some (Inl err) \<Rightarrow> Some (Inl err)
             | Some (Inr (tt', e)) \<Rightarrow> Some (Inr (dset', tt_push_doc tt' e doc_id)))
          else Some (Inr (dset', tt)))"

fun scan_bytes ::
  "string \<Rightarrow> u32 \<Rightarrow> DocTermSet \<times> TermTable \<times> string \<Rightarrow>
   (error + DocTermSet \<times> TermTable \<times> string) option" where
  "scan_bytes [] doc_id st = Some (Inr st)"
| "scan_bytes (c # buf) doc_id (dset, tt, tok) =
     (if is_ascii_alnum c then
        scan_bytes buf doc_id
          (dset, tt, (if length tok < 256 - 1 then tok @ [to_lower_ascii c] else tok))
      else if length tok > 0 then
        (case index_token dset tt (tok @ [NUL]) (int (length tok)) doc_id of
           None \<Rightarrow> None
         | Some (Inl err) \<Rightarrow> Some (Inl err)
         | Some (Inr (dset', tt')) \<Rightarrow> scan_bytes buf doc_id (dset', tt', []))
      else scan_bytes buf doc_id (dset, tt, tok))"

definition process_one_doc ::
  "string option \<Rightarrow> u32 \<Rightarrow> TermTable \<Rightarrow> DocTermSet \<Rightarrow>
   (error + int \<times> TermTable \<times> DocTermSet) option" where
  "process_one_doc txt doc_id tt dset0 =
     (case txt of
        None \<Rightarrow> Some (Inr (- 1, tt, dset0))
      | Some bytes \<Rightarrow>
          (case scan_bytes bytes doc_id (DocTermSet_reset dset0, tt, []) of
             None \<Rightarrow> None
           | Some (Inl err) \<Rightarrow> Some (Inl err)
           | Some (Inr (dset, tt1, tok)) \<Rightarrow>
               if length tok > 0 then
                 (case index_token dset tt1 (tok @ [NUL]) (int (length tok)) doc_id of
                    None \<Rightarrow> None
                  | Some (Inl err) \<Rightarrow> Some (Inl err)
                  | Some (Inr (dset', tt2)) \<Rightarrow> Some (Inr (0, tt2, dset')))
               else Some (Inr (0, tt1, dset))))"

text \<open>The terms of a table with their posting lists, in slot order.\<close>

definition tt_dump :: "TermTable \<Rightarrow> (string \<times> u32 list) list" where
  "tt_dump tt =
     map (\<lambda>e. (take (te_len e) (te_term e), ul_list (te_post e)))
       (filter (\<lambda>e. te_hash e \<noteq> 0) (tt_tab tt))"

text \<open>A dedup set of one slot after the term \<open>a\<close> went in: \<open>used * 10 \<ge> cap * 8\<close>.\<close>

definition example_dset :: DocTermSet where
  "example_dset =
     \<lparr>ds_tab = [\<lparr>de_hash = 4953267810257967366, de_term = ''a'' @ [NUL], de_buf = 0,
                  de_len = 1\<rparr>],
      ds_cap = 1, ds_used = 1, ds_arena = \<lparr>ar_buf = 0, ar_cap = 64, ar_used = 2\<rparr>\<rparr>"

section \<open>Union of two posting lists in the merger (indexer.cpp, merge_union_u32)\<close>

text \<open>
  The output array \<^verbatim>\<open>out\<close> has \<^verbatim>\<open>na + nb\<close> cells and \<^verbatim>\<open>k\<close> counts the cells written:
  the pair \<open>(out, k)\<close>. \<open>emit\<close> is the statement
  \<^verbatim>\<open>if (k==0 || out[k-1]!=v) out[k++]=v;\<close> that each of the three loops ends with.
\<close>

definition emit :: "u32 list \<times> nat \<Rightarrow> u32 \<Rightarrow> u32 list \<times> nat" where
  "emit ok v =
     (case ok of (out, k) \<Rightarrow>
        if k = 0 \<or> out ! (k - 1) \<noteq> v then (out[k := v], k + 1) else (out, k))"

function merge_loop1 ::
  "u32 list \<Rightarrow> u32 list \<Rightarrow> nat \<Rightarrow> nat \<Rightarrow> u32 list \<times> nat \<Rightarrow> nat \<times> nat \<times> (u32 list \<times> nat)"
where
  "merge_loop1 a b i j ok =
     (if i < length a \<and> j < length b then
        (let x = a ! i; y = b ! j in
         if x = y then merge_loop1 a b (i + 1) (j + 1) (emit ok x)
         else if x < y then merge_loop1 a b (i + 1) j (emit ok x)
         else merge_loop1 a b i (j + 1) (emit ok y))
      else (i, j, ok))"
  by pat_completeness auto
termination
  by (relation "measure (\<lambda>(a, b, i, j, ok). (length a - i) + (length b - j))") auto

declare merge_loop1.simps [simp del]

function merge_loop2 :: "u32 list \<Rightarrow> nat \<Rightarrow> u32 list \<times> nat \<Rightarrow> u32 list \<times> nat" where
  "merge_loop2 a i ok =
     (if i < length a then merge_loop2 a (i + 1) (emit ok (a ! i)) else ok)"
  by pat_completeness auto
termination
  by (relation "measure (\<lambda>(a, i, ok). length a - i)") auto

declare merge_loop2.simps [simp del]

definition merge_union_u32 :: "u32 list \<Rightarrow> u32 list \<Rightarrow> u32 list \<times> nat" where
  "merge_union_u32 a b =
     (let cap = length a + length b;
          out = replicate cap 0
      in case merge_loop1 a b 0 0 (out, 0) of
           (i, j, ok1) \<Rightarrow> merge_loop2 b j (merge_loop2 a i ok1))"

text \<open>The array the caller receives: the first \<^verbatim>\<open>*out_n\<close> cells of \<^verbatim>\<open>out\<close>.\<close>

definition out_list :: "u32 list \<times> nat \<Rightarrow> u32 list" where
  "out_list ok = take (snd ok) (fst ok)"

text \<open>
  The invariant of the three loops: what has been written, followed by what is left of
  either input, is strictly increasing, and the cells left in \<open>out\<close> are enough for
  what is left of both inputs. \<open>merge_cont\<close> is the set of values written or still to come.
\<close>

definition merge_inv :: "u32 list \<Rightarrow> u32 list \<Rightarrow> nat \<Rightarrow> nat \<Rightarrow> u32 list \<times> nat \<Rightarrow> bool" where
  "merge_inv a b i j ok =
     (sorted_wrt (<) (out_list ok @ drop i a) \<and> sorted_wrt (<) (out_list ok @ drop j b) \<and>
      snd ok + (length a - i) + (length b - j) \<le> length (fst ok))"

definition merge_cont :: "u32 list \<Rightarrow> u32 list \<Rightarrow> nat \<Rightarrow> nat \<Rightarrow> u32 list \<times> nat \<Rightarrow> u32 set" where
  "merge_cont a b i j ok = set (out_list ok) \<union> set (drop i a) \<union> set (drop j b)"

section \<open>Combinators of the query evaluator (search_cli.cpp, op_and, op_or, op_not)\<close>

text \<open>
  \<^verbatim>\<open>U32Vec\<close> is the growable output array of the combinators: \<^verbatim>\<open>n\<close> elements in use in
  \<^verbatim>\<open>cap\<close> allocated cells. \<open>uv_a\<close> holds the cells in use, so that \<^verbatim>\<open>n\<close> is its length;
  \<open>uv_cap\<close> is the \<^verbatim>\<open>uint32_t\<close> capacity. \<open>reserve_loop\<close> is the loop
  \<^verbatim>\<open>while (nc < need) nc *= 2;\<close> of \<^verbatim>\<open>reserve\<close>: the product wraps at 32 bits, and the loop
  need not end (\<open>None\<close>). \<^verbatim>\<open>push\<close> writes the cell \<^verbatim>\<open>a[n]\<close>, which lies outside the array when
  \<^verbatim>\<open>reserve\<close> has left \<^verbatim>\<open>cap\<close> at \<^verbatim>\<open>n\<close>.
\<close>

record U32Vec =
  uv_a :: "u32 list"
  uv_cap :: u32

definition U32Vec_init :: U32Vec where
  "U32Vec_init = \<lparr>uv_a = [], uv_cap = 0\<rparr>"

definition U32Vec_clear :: "U32Vec \<Rightarrow> U32Vec" where
  "U32Vec_clear v = v\<lparr>uv_a := []\<rparr>"

partial_function (option) reserve_loop :: "u32 \<Rightarrow> u32 \<Rightarrow> u32 option" where
  "reserve_loop nc need = (if nc < need then reserve_loop (nc * 2) need else Some nc)"

declare reserve_loop.simps [code]

definition U32Vec_reserve :: "U32Vec \<Rightarrow> u32 \<Rightarrow> U32Vec option" where
  "U32Vec_reserve v need =
     (if uv_cap v \<ge> need then Some v
      else (case reserve_loop (if uv_cap v \<noteq> 0 then uv_cap v else 8) need of
              None \<Rightarrow> None
            | Some nc \<Rightarrow> Some (v\<lparr>uv_cap := nc\<rparr>)))"

definition U32Vec_push :: "U32Vec \<Rightarrow> u32 \<Rightarrow> (error + U32Vec) option" where
  "U32Vec_push v0 x =
     (case (if length (uv_a v0) = unat (uv_cap v0)
            then U32Vec_reserve v0 (if uv_cap v0 \<noteq> 0 then uv_cap v0 * 2 else 8)
            else Some v0) of
        None \<Rightarrow> None
      | Some v \<Rightarrow>
          if length (uv_a v) < unat (uv_cap v) then Some (Inr (v\<lparr>uv_a := uv_a v @ [x]\<rparr>))
          else Some (Inl BadRead))"

text \<open>
  The combinators read their inputs as arrays with their lengths (\<^verbatim>\<open>a, na\<close>), at the
  indices \<open>i\<close> and \<open>j\<close> as in the source, and leave the result in the vector \<^verbatim>\<open>out\<close> they
  are given; the lengths \<^verbatim>\<open>na\<close>, \<^verbatim>\<open>nb\<close> handed to \<^verbatim>\<open>reserve\<close> are \<^verbatim>\<open>uint32_t\<close>, and so is their
  sum. A result \<open>None\<close> says that the call does not return.
\<close>

function op_and_loop ::
  "u32 list \<Rightarrow> u32 list \<Rightarrow> nat \<Rightarrow> nat \<Rightarrow> U32Vec \<Rightarrow> (error + U32Vec) option" where
  "op_and_loop a b i j out =
     (if i < length a \<and> j < length b then
        (let x = a ! i; y = b ! j in
         if x = y then
           (case U32Vec_push out x of
              None \<Rightarrow> None
            | Some (Inl e) \<Rightarrow> Some (Inl e)
            | Some (Inr out') \<Rightarrow> op_and_loop a b (i + 1) (j + 1) out')
         else if x < y then op_and_loop a b (i + 1) j out
         else op_and_loop a b i (j + 1) out)
      else Some (Inr out))"
  by pat_completeness auto
termination
  by (relation "measure (\<lambda>(a, b, i, j, out). (length a - i) + (length b - j))") auto

declare op_and_loop.simps [simp del]

definition op_and :: "u32 list \<Rightarrow> u32 list \<Rightarrow> U32Vec \<Rightarrow> (error + U32Vec) option" where
  "op_and a b out =
     (let na = word_of_nat (length a) :: u32; nb = word_of_nat (length b) :: u32 in
      case U32Vec_reserve (U32Vec_clear out) (if na < nb then na else nb) of
        None \<Rightarrow> None
      | Some out1 \<Rightarrow> op_and_loop a b 0 0 out1)"

function op_or_loop ::
  "u32 list \<Rightarrow> u32 list \<Rightarrow> nat \<Rightarrow> nat \<Rightarrow> U32Vec \<Rightarrow> (error + nat \<times> nat \<times> U32Vec) option" where
  "op_or_loop a b i j out =
     (if i < length a \<and> j < length b then
        (let x = a ! i; y = b ! j in
         if x = y then
           (case U32Vec_push out x of
              None \<Rightarrow> None
            | Some (Inl e) \<Rightarrow> Some (Inl e)
            | Some (Inr out') \<Rightarrow> op_or_loop a b (i + 1) (j + 1) out')
         else if x < y then
           (case U32Vec_push out x of
              None \<Rightarrow> None
            | Some (Inl e) \<Rightarrow> Some (Inl e)
            | Some (Inr out') \<Rightarrow> op_or_loop a b (i + 1) j out')
         else
           (case U32Vec_push out y of
              None \<Rightarrow> None
            | Some (Inl e) \<Rightarrow> Some (Inl e)
            | Some (Inr out') \<Rightarrow> op_or_loop a b i (j + 1) out'))
      else Some (Inr (i, j, out)))"
  by pat_completeness auto
termination
  by (relation "measure (\<lambda>(a, b, i, j, out). (length a - i) + (length b - j))") auto

declare op_or_loop.simps [simp del]

function op_or_rest :: "u32 list \<Rightarrow> nat \<Rightarrow> U32Vec \<Rightarrow> (error + U32Vec) option" where
  "op_or_rest a i out =
     (if i < length a then
        (case U32Vec_push out (a ! i) of
           None \<Rightarrow> None
         | Some (Inl e) \<Rightarrow> Some (Inl e)
         | Some (Inr out') \<Rightarrow> op_or_rest a (i + 1) out')
      else Some (Inr out))"
  by pat_completeness auto
termination
  by (relation "measure (\<lambda>(a, i, out). length a - i)") auto

declare op_or_rest.simps [simp del]

definition op_or :: "u32 list \<Rightarrow> u32 list \<Rightarrow> U32Vec \<Rightarrow> (error + U32Vec) option" where
  "op_or a b out =
     (let na = word_of_nat (length a) :: u32; nb = word_of_nat (length b) :: u32 in
      case U32Vec_reserve (U32Vec_clear out) (na + nb) of
        None \<Rightarrow> None
      | Some out1 \<Rightarrow>
          (case op_or_loop a b 0 0 out1 of
             None \<Rightarrow> None
           | Some (Inl e) \<Rightarrow> Some (Inl e)
           | Some (Inr (i, j, out2)) \<Rightarrow>
               (case op_or_rest a i out2 of
                  None \<Rightarrow> None
                | Some (Inl e) \<Rightarrow> Some (Inl e)
                | Some (Inr out3) \<Rightarrow> op_or_rest b j out3)))"

text \<open>
  \<open>op_not_skip\<close> is the inner loop \<^verbatim>\<open>while (i<na && a[i] < d) i++;\<close> and \<open>op_not_loop\<close> the
  loop over \<^verbatim>\<open>d\<close>, a \<^verbatim>\<open>uint32_t\<close> that stays below \<^verbatim>\<open>doc_count\<close>.
\<close>

function op_not_skip :: "u32 list \<Rightarrow> nat \<Rightarrow> u32 \<Rightarrow> nat" where
  "op_not_skip a i d = (if i < length a \<and> a ! i < d then op_not_skip a (i + 1) d else i)"
  by pat_completeness auto
termination
  by (relation "measure (\<lambda>(a, i, d). length a - i)") auto

declare op_not_skip.simps [simp del]

function op_not_loop ::
  "u32 \<Rightarrow> u32 list \<Rightarrow> nat \<Rightarrow> u32 \<Rightarrow> U32Vec \<Rightarrow> (error + U32Vec) option" where
  "op_not_loop doc_count a i d out =
     (if d < doc_count then
        (let i' = op_not_skip a i d in
         if i' < length a \<and> a ! i' = d then op_not_loop doc_count a i' (d + 1) out
         else
           (case U32Vec_push out d of
              None \<Rightarrow> None
            | Some (Inl e) \<Rightarrow> Some (Inl e)
            | Some (Inr out') \<Rightarrow> op_not_loop doc_count a i' (d + 1) out'))
      else Some (Inr out))"
  by pat_completeness auto
termination
proof (relation "measure (\<lambda>(doc_count, a, i, d, out). unat doc_count - unat d)")
  show "wf (measure (\<lambda>(doc_count, a, i, d, out). unat doc_count - unat d))" by simp
next
  fix doc_count d :: u32 and a :: "u32 list" and i x :: nat and out out' :: U32Vec
  assume lt: "d < doc_count"
  have lt': "unat d < unat doc_count"
    using lt by (simp add: word_less_nat_alt)
  then have "unat d + unat (1 :: u32) < 2 ^ LENGTH(32)"
    using unsigned_less [of doc_count, where ?'a = nat] by simp
  then have "unat (d + 1) = unat d + unat (1 :: u32)"
    by (simp only: unat_add_lem)
  with lt' have "unat (d + 1) = Suc (unat d)" "unat d < unat doc_count"
    by simp_all
  then show "((doc_count, a, x, d + 1, out), doc_count, a, i, d, out)
      \<in> measure (\<lambda>(doc_count, a, i, d, out). unat doc_count - unat d)"
    and "((doc_count, a, x, d + 1, out'), doc_count, a, i, d, out)
      \<in> measure (\<lambda>(doc_count, a, i, d, out). unat doc_count - unat d)"
    by simp_all
qed

declare op_not_loop.simps [simp del]

definition op_not :: "u32 \<Rightarrow> u32 list \<Rightarrow> U32Vec \<Rightarrow> (error + U32Vec) option" where
  "op_not doc_count a out =
     (let na = word_of_nat (length a) :: u32 in
      case U32Vec_reserve (U32Vec_clear out) (if doc_count > na then doc_count - na else 0) of
        None \<Rightarrow> None
      | Some out1 \<Rightarrow> op_not_loop doc_count a 0 0 out1)"
















text \<open>The cells in use fit the capacity.\<close>

definition uv_ok :: "U32Vec \<Rightarrow> bool" where
  "uv_ok v = (length (uv_a v) \<le> unat (uv_cap v))"

section \<open>The Porter stemmer (stemming.cpp)\<close>

text \<open>
  The stemmer works in place on a \<^verbatim>\<open>char\<close> buffer \<open>b\<close> with the indices \<^verbatim>\<open>k\<close> (last
  character of the word) and \<^verbatim>\<open>j\<close> (end of the stem), both \<^verbatim>\<open>int\<close>. The buffer is a list
  of its cells. A write outside the buffer is the result \<open>None\<close>: \<open>wr\<close> is the assignment
  \<^verbatim>\<open>b[i] = c\<close> and \<open>memcpy_at\<close> is \<^verbatim>\<open>memcpy(b + start, s, slen)\<close>. The stemmer reads only
  cells \<open>0 .. k\<close> of the word.
\<close>

definition wr :: "string \<Rightarrow> int \<Rightarrow> char \<Rightarrow> string option" where
  "wr b i c = (if 0 \<le> i \<and> i < int (length b) then Some (b[nat i := c]) else None)"

fun memcpy_at :: "string \<Rightarrow> int \<Rightarrow> string \<Rightarrow> string option" where
  "memcpy_at b start [] = Some b"
| "memcpy_at b start (c # cs) =
     (case wr b start c of None \<Rightarrow> None | Some b' \<Rightarrow> memcpy_at b' (start + 1) cs)"

fun is_consonant :: "string \<Rightarrow> nat \<Rightarrow> bool" where
  "is_consonant b 0 =
     (let ch = b ! 0 in
      if ch = CHR ''a'' \<or> ch = CHR ''e'' \<or> ch = CHR ''i'' \<or> ch = CHR ''o'' \<or> ch = CHR ''u''
      then False else True)"
| "is_consonant b (Suc i) =
     (let ch = b ! Suc i in
      if ch = CHR ''a'' \<or> ch = CHR ''e'' \<or> ch = CHR ''i'' \<or> ch = CHR ''o'' \<or> ch = CHR ''u''
      then False
      else if ch = CHR ''y'' then \<not> is_consonant b i
      else True)"

text \<open>
  \<^verbatim>\<open>m_measure\<close> is three loops over one index \<open>i\<close>: the leading consonants, then
  alternately a run of vowels (ending it counts one) and a run of consonants.
\<close>

datatype m_phase = Lead | Vowels | Consonants

function m_loop :: "string \<Rightarrow> int \<Rightarrow> m_phase \<Rightarrow> nat \<Rightarrow> nat \<Rightarrow> nat" where
  "m_loop b j ph i n =
     (if int i > j then n
      else (case ph of
              Lead \<Rightarrow> if \<not> is_consonant b i then m_loop b j Vowels (i + 1) n
                      else m_loop b j Lead (i + 1) n
            | Vowels \<Rightarrow> if is_consonant b i then m_loop b j Consonants (i + 1) (n + 1)
                        else m_loop b j Vowels (i + 1) n
            | Consonants \<Rightarrow> if \<not> is_consonant b i then m_loop b j Vowels (i + 1) n
                            else m_loop b j Consonants (i + 1) n))"
  by pat_completeness auto
termination
  by (relation "measure (\<lambda>(b, j, ph, i, n). nat (j + 1 - int i))") auto

declare m_loop.simps [simp del]

definition m_measure :: "string \<Rightarrow> int \<Rightarrow> nat" where
  "m_measure b j = m_loop b j Lead 0 0"

definition vowel_in_stem :: "string \<Rightarrow> int \<Rightarrow> bool" where
  "vowel_in_stem b j = list_ex (\<lambda>i. \<not> is_consonant b i) [0 ..< nat (j + 1)]"

definition doublec :: "string \<Rightarrow> int \<Rightarrow> bool" where
  "doublec b j =
     (if j < 1 then False
      else if b ! nat j \<noteq> b ! nat (j - 1) then False
      else is_consonant b (nat j))"

definition cvc :: "string \<Rightarrow> int \<Rightarrow> bool" where
  "cvc b i =
     (if i < 2 then False
      else if \<not> is_consonant b (nat i) \<or> is_consonant b (nat (i - 1)) \<or>
              \<not> is_consonant b (nat (i - 2)) then False
      else (let ch = b ! nat i in
            if ch = CHR ''w'' \<or> ch = CHR ''x'' \<or> ch = CHR ''y'' then False else True))"

definition ends_with :: "string \<Rightarrow> int \<Rightarrow> string \<Rightarrow> bool" where
  "ends_with b k s =
     (let slen = int (length s) in
      if slen > k + 1 then False
      else memcmp (drop (nat (k + 1 - slen)) b) s (nat slen) = Inr 0)"

type_synonym stem_state = "string \<times> int \<times> int"

definition set_to :: "string \<Rightarrow> string \<Rightarrow> int \<Rightarrow> (string \<times> int) option" where
  "set_to b s j =
     (let start = j + 1 in
      case memcpy_at b start s of
        None \<Rightarrow> None
      | Some b1 \<Rightarrow>
          (let k = start + int (length s) - 1 in
           case wr b1 (k + 1) NUL of None \<Rightarrow> None | Some b2 \<Rightarrow> Some (b2, k)))"

text \<open>The function \<^verbatim>\<open>r\<close> of the source.\<close>

definition r_if_m :: "string \<Rightarrow> int \<Rightarrow> string \<Rightarrow> int \<Rightarrow> (string \<times> int) option" where
  "r_if_m b k s j = (if m_measure b j > 0 then set_to b s j else Some (b, k))"

text \<open>The statement pair \<^verbatim>\<open>*k = k'; b[*k+1]='\0';\<close>\<close>

definition cut_to :: "string \<Rightarrow> int \<Rightarrow> (string \<times> int) option" where
  "cut_to b k' = (case wr b (k' + 1) NUL of None \<Rightarrow> None | Some b' \<Rightarrow> Some (b', k'))"

text \<open>
  \<^verbatim>\<open>step1ab\<close>, in the four blocks of its body: the plural endings, \<^verbatim>\<open>eed/ed/ing\<close> with
  the flag, the repair after a removed \<^verbatim>\<open>ed/ing\<close>, and the final \<^verbatim>\<open>y\<close>.
\<close>

definition step1a :: "stem_state \<Rightarrow> stem_state option" where
  "step1a st =
     (case st of (b, k, j) \<Rightarrow>
        if ends_with b k ''sses'' then
          (case cut_to b (k - 2) of None \<Rightarrow> None | Some (b', k') \<Rightarrow> Some (b', k', j))
        else if ends_with b k ''ies'' then
          (case cut_to b (k - 2) of None \<Rightarrow> None | Some (b', k') \<Rightarrow> Some (b', k', j))
        else if ends_with b k ''ss'' then Some (b, k, j)
        else if ends_with b k ''s'' then
          (case cut_to b (k - 1) of None \<Rightarrow> None | Some (b', k') \<Rightarrow> Some (b', k', j))
        else Some (b, k, j))"

text \<open>Step 1b up to the flag; the result carries \<^verbatim>\<open>flag\<close>.\<close>

definition step1b :: "stem_state \<Rightarrow> (stem_state \<times> bool) option" where
  "step1b st =
     (case st of (b, k, j) \<Rightarrow>
        if ends_with b k ''eed'' then
          (let j = k - 3 in
           if m_measure b j > 0 then
             (case cut_to b (k - 1) of None \<Rightarrow> None | Some (b', k') \<Rightarrow> Some ((b', k', j), False))
           else Some ((b, k, j), False))
        else
          (let ed = ends_with b k ''ed'';
               j1 = (if ed then k - 2 else j);
               c1 = (ed \<and> vowel_in_stem b j1);
               ing = (\<not> c1 \<and> ends_with b k ''ing'');
               j2 = (if ing then k - 3 else j1);
               c2 = (ing \<and> vowel_in_stem b j2)
           in if c1 \<or> c2 then
                (case cut_to b j2 of None \<Rightarrow> None | Some (b', k') \<Rightarrow> Some ((b', k', j2), True))
              else Some ((b, k, j2), False)))"

definition step1b_flag :: "stem_state \<Rightarrow> stem_state option" where
  "step1b_flag st =
     (case st of (b, k, j) \<Rightarrow>
        if ends_with b k ''at'' then
          (let j = k - 2 in
           case set_to b ''ate'' j of None \<Rightarrow> None | Some (b', k') \<Rightarrow> Some (b', k', j))
        else if ends_with b k ''bl'' then
          (let j = k - 2 in
           case set_to b ''ble'' j of None \<Rightarrow> None | Some (b', k') \<Rightarrow> Some (b', k', j))
        else if ends_with b k ''iz'' then
          (let j = k - 2 in
           case set_to b ''ize'' j of None \<Rightarrow> None | Some (b', k') \<Rightarrow> Some (b', k', j))
        else if doublec b k then
          (let ch = b ! nat k in
           if ch \<noteq> CHR ''l'' \<and> ch \<noteq> CHR ''s'' \<and> ch \<noteq> CHR ''z'' then
             (case cut_to b (k - 1) of None \<Rightarrow> None | Some (b', k') \<Rightarrow> Some (b', k', j))
           else Some (b, k, j))
        else if m_measure b k = 1 \<and> cvc b k then
          (let j = k in
           case set_to b ''e'' j of None \<Rightarrow> None | Some (b', k') \<Rightarrow> Some (b', k', j))
        else Some (b, k, j))"

definition step1c :: "stem_state \<Rightarrow> stem_state option" where
  "step1c st =
     (case st of (b, k, j) \<Rightarrow>
        if ends_with b k ''y'' then
          (let j = k - 1 in
           if vowel_in_stem b j then
             (case wr b k (CHR ''i'') of None \<Rightarrow> None | Some b' \<Rightarrow> Some (b', k, j))
           else Some (b, k, j))
        else Some (b, k, j))"

definition step1ab :: "stem_state \<Rightarrow> stem_state option" where
  "step1ab st =
     (case step1a st of
        None \<Rightarrow> None
      | Some st1 \<Rightarrow>
          (case step1b st1 of
             None \<Rightarrow> None
           | Some (st2, flag) \<Rightarrow>
               (case (if flag then step1b_flag st2 else Some st2) of
                  None \<Rightarrow> None
                | Some st3 \<Rightarrow> step1c st3)))"

text \<open>Steps 2 to 4 walk a table and stop at the first suffix that matches.\<close>

definition step2_rules :: "(string \<times> string) list" where
  "step2_rules =
     [(''ational'', ''ate''), (''tional'', ''tion''), (''enci'', ''ence''), (''anci'', ''ance''),
      (''izer'', ''ize''), (''abli'', ''able''), (''alli'', ''al''), (''entli'', ''ent''),
      (''eli'', ''e''), (''ousli'', ''ous''), (''ization'', ''ize''), (''ation'', ''ate''),
      (''ator'', ''ate''), (''alism'', ''al''), (''iveness'', ''ive''), (''fulness'', ''ful''),
      (''ousness'', ''ous''), (''aliti'', ''al''), (''iviti'', ''ive''), (''biliti'', ''ble''),
      (''logi'', ''log'')]"

fun step2_loop :: "(string \<times> string) list \<Rightarrow> stem_state \<Rightarrow> stem_state option" where
  "step2_loop [] st = Some st"
| "step2_loop ((suf, rep) # rules) (b, k, j) =
     (if ends_with b k suf then
        (let j = k - int (length suf) in
         if m_measure b j > 0 then
           (case set_to b rep j of None \<Rightarrow> None | Some (b', k') \<Rightarrow> Some (b', k', j))
         else Some (b, k, j))
      else step2_loop rules (b, k, j))"

definition step2 :: "stem_state \<Rightarrow> stem_state option" where
  "step2 st = step2_loop step2_rules st"

definition step3_rules :: "(string \<times> string) list" where
  "step3_rules =
     [(''icate'', ''ic''), (''ative'', ''''), (''alize'', ''al''), (''iciti'', ''ic''),
      (''ical'', ''ic''), (''ful'', ''''), (''ness'', '''')]"

fun step3_loop :: "(string \<times> string) list \<Rightarrow> stem_state \<Rightarrow> stem_state option" where
  "step3_loop [] st = Some st"
| "step3_loop ((suf, rep) # rules) (b, k, j) =
     (if ends_with b k suf then
        (let j = k - int (length suf) in
         case r_if_m b k rep j of None \<Rightarrow> None | Some (b', k') \<Rightarrow> Some (b', k', j))
      else step3_loop rules (b, k, j))"

definition step3 :: "stem_state \<Rightarrow> stem_state option" where
  "step3 st = step3_loop step3_rules st"

definition step4_sufs :: "string list" where
  "step4_sufs =
     [''al'', ''ance'', ''ence'', ''er'', ''ic'', ''able'', ''ible'', ''ant'', ''ement'', ''ment'',
      ''ent'', ''ion'', ''ou'', ''ism'', ''ate'', ''iti'', ''ous'', ''ive'', ''ize'']"

fun step4_loop :: "string list \<Rightarrow> stem_state \<Rightarrow> stem_state option" where
  "step4_loop [] st = Some st"
| "step4_loop (suf # sufs) (b, k, j) =
     (if ends_with b k suf then
        (let j = k - int (length suf) in
         if suf = ''ion'' \<and> \<not> (j \<ge> 0 \<and> (b ! nat j = CHR ''s'' \<or> b ! nat j = CHR ''t''))
         then Some (b, k, j)
         else if m_measure b j > 1 then
           (case cut_to b j of None \<Rightarrow> None | Some (b', k') \<Rightarrow> Some (b', k', j))
         else Some (b, k, j))
      else step4_loop sufs (b, k, j))"

definition step4 :: "stem_state \<Rightarrow> stem_state option" where
  "step4 st = step4_loop step4_sufs st"

definition step5a :: "stem_state \<Rightarrow> stem_state option" where
  "step5a st =
     (case st of (b, k, j) \<Rightarrow>
        if ends_with b k ''e'' then
          (let j = k - 1; m = m_measure b j in
           if m > 1 \<or> (m = 1 \<and> \<not> cvc b j) then
             (case cut_to b (k - 1) of None \<Rightarrow> None | Some (b', k') \<Rightarrow> Some (b', k', j))
           else Some (b, k, j))
        else Some (b, k, j))"

definition step5b :: "stem_state \<Rightarrow> stem_state option" where
  "step5b st =
     (case st of (b, k, j) \<Rightarrow>
        if m_measure b k > 1 \<and> doublec b k \<and> b ! nat k = CHR ''l'' then
          (case cut_to b (k - 1) of None \<Rightarrow> None | Some (b', k') \<Rightarrow> Some (b', k', j))
        else Some (b, k, j))"

definition step5 :: "stem_state \<Rightarrow> stem_state option" where
  "step5 st = (case step5a st of None \<Rightarrow> None | Some st' \<Rightarrow> step5b st')"

definition has_letter :: "string \<Rightarrow> int \<Rightarrow> bool" where
  "has_letter b len =
     list_ex (\<lambda>i. (of_char (CHR ''a'') :: nat) \<le> of_char (b ! i) \<and>
                  (of_char (b ! i) :: nat) \<le> of_char (CHR ''z'')) [0 ..< nat len]"

text \<open>The five calls \<^verbatim>\<open>step1ab(b, &k, &j); ... step5(b, &k, &j);\<close> in sequence.\<close>

definition porter_steps :: "stem_state \<Rightarrow> stem_state option" where
  "porter_steps st =
     do { st1 \<leftarrow> step1ab st; st2 \<leftarrow> step2 st1; st3 \<leftarrow> step3 st2;
          st4 \<leftarrow> step4 st3; step5 st4 }"

definition porter_stem_inplace :: "string \<Rightarrow> int \<Rightarrow> (string \<times> int) option" where
  "porter_stem_inplace b len =
     (if len \<le> 2 then do { b' \<leftarrow> wr b len NUL; Some (b', len) }
      else if \<not> has_letter b len then do { b' \<leftarrow> wr b len NUL; Some (b', len) }
      else
        (case porter_steps (b, len - 1, 0) of
           None \<Rightarrow> None
         | Some (b5, k, j) \<Rightarrow>
             (let out_len = (if k + 1 < 0 then 0 else k + 1)
              in do { b' \<leftarrow> wr b5 out_len NUL; Some (b', out_len) })))"

definition stem_word_en :: "string \<Rightarrow> int \<Rightarrow> (string \<times> int) option" where
  "stem_word_en w len = porter_stem_inplace w len"

text \<open>A 256-byte token buffer holding a word, as the callers prepare it.\<close>

definition tok_buf :: "string \<Rightarrow> string" where
  "tok_buf w = w @ replicate (256 - length w) NUL"

text \<open>
  For the proofs: the buffer \<open>set_to\<close> leaves, and what a step promises about its result
  (the buffer keeps its size, \<open>k\<close> stays non-negative and grows by at most \<open>d\<close>).
\<close>

definition set_to_buf :: "string \<Rightarrow> string \<Rightarrow> int \<Rightarrow> string" where
  "set_to_buf b s j = fst (the (set_to b s j))"

definition stem_post :: "int \<Rightarrow> stem_state \<Rightarrow> stem_state option \<Rightarrow> bool" where
  "stem_post d st res =
     (case res of
        None \<Rightarrow> False
      | Some (b', k', j') \<Rightarrow>
          length b' = length (fst st) \<and> 0 \<le> k' \<and> k' \<le> fst (snd st) + d)"

section \<open>The index reader (search_cli.cpp, Index)\<close>

text \<open>
  The packed structs of the three files. Offsets and lengths are unsigned fields that index
  buffers held in memory. An \<open>Index\<close> holds the headers (\<^verbatim>\<open>dh\<close>, \<^verbatim>\<open>lh\<close>: null before a
  load), the record array \<^verbatim>\<open>lex\<close>, the term pool behind it and the bytes of
  \<^verbatim>\<open>postings.bin\<close>.
\<close>

record DocsHeader =
  dh_magic :: string
  dh_version :: u32
  dh_doc_count :: u32
  dh_string_pool_bytes :: u64

record LexHeader =
  lh_magic :: string
  lh_version :: u32
  lh_term_count :: u32
  lh_string_pool_bytes :: u64

record LexRec =
  lr_term_off :: nat
  lr_term_len :: nat
  lr_flags :: nat
  lr_df :: nat
  lr_postings_off :: nat
  lr_postings_len :: nat
  lr_reserved :: nat

record Index =
  ix_dh :: "DocsHeader option"
  ix_lh :: "LexHeader option"
  ix_lex :: "LexRec list"
  ix_term_pool :: string
  ix_postings_file :: "8 word list"

definition Index_doc_count :: "Index \<Rightarrow> u32" where
  "Index_doc_count idx = (case ix_dh idx of Some h \<Rightarrow> dh_doc_count h | None \<Rightarrow> 0)"

definition Index_term_count :: "Index \<Rightarrow> u32" where
  "Index_term_count idx = (case ix_lh idx of Some h \<Rightarrow> lh_term_count h | None \<Rightarrow> 0)"

text \<open>
  \<^verbatim>\<open>find_term\<close> returns 1 and stores \<^verbatim>\<open>mid\<close> in \<^verbatim>\<open>*out_idx\<close> (here \<open>Some mid\<close>), or
  returns 0 (\<open>None\<close>).
\<close>

function find_term_loop :: "Index \<Rightarrow> string \<Rightarrow> nat \<Rightarrow> nat \<Rightarrow> nat \<Rightarrow> error + nat option" where
  "find_term_loop idx t tlen lo hi =
     (if lo < hi then
        (let mid = lo + (hi - lo) div 2 in
         if length (ix_lex idx) \<le> mid then Inl BadRead
         else
           (let r = ix_lex idx ! mid;
                s = drop (lr_term_off r) (ix_term_pool idx);
                slen = lr_term_len r;
                m = (if tlen < slen then tlen else slen)
            in case memcmp t s m of
                 Inl e \<Rightarrow> Inl e
               | Inr c0 \<Rightarrow>
                   (let c = (if c0 = 0
                             then (if tlen < slen then - 1 else if tlen > slen then 1 else 0)
                             else c0)
                    in if c = 0 then Inr (Some mid)
                       else if c < 0 then find_term_loop idx t tlen lo mid
                       else find_term_loop idx t tlen (mid + 1) hi)))
      else Inr None)"
  by pat_completeness auto
termination
  by (relation "measure (\<lambda>(idx, t, tlen, lo, hi). hi - lo)") (auto, arith+)

declare find_term_loop.simps [simp del]

definition find_term :: "Index \<Rightarrow> string \<Rightarrow> nat \<Rightarrow> error + nat option" where
  "find_term idx t tlen = find_term_loop idx t tlen 0 (unat (Index_term_count idx))"

text \<open>
  The comparator the builder sorts the lexicon with (indexer.cpp, \<^verbatim>\<open>lexrec_cmp_by_term\<close>):
  \<^verbatim>\<open>memcmp\<close> on the shorter length, then the shorter term first.
\<close>

definition lexrec_cmp_by_term :: "string \<Rightarrow> LexRec \<Rightarrow> LexRec \<Rightarrow> error + int" where
  "lexrec_cmp_by_term g_lex_pool_for_sort a b =
     (let ta = drop (lr_term_off a) g_lex_pool_for_sort;
          tb = drop (lr_term_off b) g_lex_pool_for_sort;
          alen = lr_term_len a;
          blen = lr_term_len b;
          m = (if alen < blen then alen else blen)
      in case memcmp ta tb m of
           Inl e \<Rightarrow> Inl e
         | Inr c \<Rightarrow>
             if c \<noteq> 0 then Inr c
             else if alen < blen then Inr (- 1)
             else if alen > blen then Inr 1
             else Inr 0)"

text \<open>
  The term of a record, the lexicon's well-formedness (the header's count is the number of
  records, and every term lies inside the pool) and its order under the comparator.
  \<open>lexlt\<close> is the same order written on the terms themselves.
\<close>

definition lexrec_term :: "Index \<Rightarrow> LexRec \<Rightarrow> string" where
  "lexrec_term idx r = take (lr_term_len r) (drop (lr_term_off r) (ix_term_pool idx))"

definition lex_wf :: "Index \<Rightarrow> bool" where
  "lex_wf idx =
     (unat (Index_term_count idx) = length (ix_lex idx) \<and>
      list_all (\<lambda>r. lr_term_off r + lr_term_len r \<le> length (ix_term_pool idx)) (ix_lex idx))"

definition lex_sorted :: "Index \<Rightarrow> bool" where
  "lex_sorted idx =
     sorted_wrt (\<lambda>a b. case lexrec_cmp_by_term (ix_term_pool idx) a b of
                          Inr c \<Rightarrow> c < 0 | Inl e \<Rightarrow> False) (ix_lex idx)"

fun lexlt :: "string \<Rightarrow> string \<Rightarrow> bool" where
  "lexlt [] [] = False"
| "lexlt [] (y # ys) = True"
| "lexlt (x # xs) [] = False"
| "lexlt (x # xs) (y # ys) = ((of_char x :: nat) < of_char y \<or> x = y \<and> lexlt xs ys)"

text \<open>A small lexicon: the terms \<open>ab\<close>, \<open>abc\<close>, \<open>b\<close> in a pool of NUL-terminated strings.\<close>

definition example_lex :: Index where
  "example_lex =
     \<lparr>ix_dh = Some \<lparr>dh_magic = ''DOCS'', dh_version = 1, dh_doc_count = 3, dh_string_pool_bytes = 0\<rparr>,
      ix_lh = Some \<lparr>lh_magic = ''LEXI'', lh_version = 1, lh_term_count = 3, lh_string_pool_bytes = 9\<rparr>,
      ix_lex =
        [\<lparr>lr_term_off = 0, lr_term_len = 2, lr_flags = 0, lr_df = 0,
           lr_postings_off = 40, lr_postings_len = 0, lr_reserved = 0\<rparr>,
         \<lparr>lr_term_off = 3, lr_term_len = 3, lr_flags = 0, lr_df = 0,
           lr_postings_off = 40, lr_postings_len = 0, lr_reserved = 0\<rparr>,
         \<lparr>lr_term_off = 7, lr_term_len = 1, lr_flags = 0, lr_df = 0,
           lr_postings_off = 40, lr_postings_len = 0, lr_reserved = 0\<rparr>],
      ix_term_pool = ''ab'' @ [CHR 0x00] @ ''abc'' @ [CHR 0x00] @ ''b'' @ [CHR 0x00],
      ix_postings_file = replicate 40 0\<rparr>"

section \<open>The query parser and evaluator (search_cli.cpp)\<close>

text \<open>
  A query line is the string \<^verbatim>\<open>fgets\<close> read, without its line end. \<^verbatim>\<open>TokStream::next\<close>
  reads it from the index \<^verbatim>\<open>i\<close>; here \<open>next_tok\<close> takes the part of the line from \<^verbatim>\<open>i\<close> on
  and returns the token with the part that is left. A token's text is its 256-byte
  buffer. The operator stack \<^verbatim>\<open>TokStack\<close> is a list with its top first; the output
  \<^verbatim>\<open>RpnVec\<close> is a list in the order pushed.
\<close>

datatype TokType = T_TERM | T_AND | T_OR | T_NOT | T_LP | T_RP | T_END | T_BAD

record Tok =
  tk_type :: TokType
  tk_text :: string
  tk_len :: nat

definition Tok_init :: Tok where
  "Tok_init = \<lparr>tk_type = T_END, tk_text = replicate 256 NUL, tk_len = 0\<rparr>"

definition is_space :: "char \<Rightarrow> bool" where
  "is_space c = (c = CHR '' '' \<or> c = CHR 0x09 \<or> c = CHR 0x0D \<or> c = CHR 0x0A)"

definition skip_spaces :: "string \<Rightarrow> string" where
  "skip_spaces s = dropWhile is_space s"

definition next_tok :: "string \<Rightarrow> Tok \<times> string" where
  "next_tok s0 =
     (case skip_spaces s0 of
        [] \<Rightarrow> (Tok_init, [])
      | c # rest \<Rightarrow>
          if c = CHR ''('' then (Tok_init\<lparr>tk_type := T_LP\<rparr>, rest)
          else if c = CHR '')'' then (Tok_init\<lparr>tk_type := T_RP\<rparr>, rest)
          else if c = CHR ''!'' then (Tok_init\<lparr>tk_type := T_NOT\<rparr>, rest)
          else if c = CHR ''&'' then
            (Tok_init\<lparr>tk_type := T_AND\<rparr>,
             (case rest of c' # rest' \<Rightarrow> if c' = CHR ''&'' then rest' else rest | [] \<Rightarrow> rest))
          else if c = CHR ''|'' then
            (Tok_init\<lparr>tk_type := T_OR\<rparr>,
             (case rest of c' # rest' \<Rightarrow> if c' = CHR ''|'' then rest' else rest | [] \<Rightarrow> rest))
          else if is_ascii_alnum c then
            (let run = takeWhile is_ascii_alnum (c # rest);
                 text = take 255 (map to_lower_ascii run)
             in (\<lparr>tk_type = T_TERM, tk_text = text @ replicate (256 - length text) NUL,
                  tk_len = length text\<rparr>,
                 dropWhile is_ascii_alnum (c # rest)))
          else (Tok_init\<lparr>tk_type := T_BAD\<rparr>, rest))"

definition precedence :: "TokType \<Rightarrow> int" where
  "precedence t = (if t = T_NOT then 3 else if t = T_AND then 2 else if t = T_OR then 1 else 0)"

definition is_right_assoc :: "TokType \<Rightarrow> bool" where
  "is_right_assoc t = (t = T_NOT)"

record RpnItem =
  ri_type :: TokType
  ri_text :: string
  ri_len :: nat

definition RpnItem_init :: RpnItem where
  "RpnItem_init = \<lparr>ri_type = T_TERM, ri_text = replicate 256 NUL, ri_len = 0\<rparr>"

definition is_value_token :: "TokType \<Rightarrow> bool" where
  "is_value_token t = (t = T_TERM \<or> t = T_RP)"

definition can_start_value :: "TokType \<Rightarrow> bool" where
  "can_start_value t = (t = T_TERM \<or> t = T_LP \<or> t = T_NOT)"

definition normalize_term :: "string \<Rightarrow> nat \<Rightarrow> (string \<times> nat) option" where
  "normalize_term s len =
     (case stem_word_en s (int len) of
        None \<Rightarrow> None
      | Some (s1, n0) \<Rightarrow>
          (let n1 = (if n0 < 0 then 0 else n0);
               n = (if n1 > 255 then 255 else n1)
           in case wr s1 n NUL of None \<Rightarrow> None | Some s2 \<Rightarrow> Some (s2, nat n)))"

type_synonym rpn_state = "TokType list \<times> RpnItem list \<times> Tok"

fun pop_ops :: "TokType \<Rightarrow> TokType list \<Rightarrow> RpnItem list \<Rightarrow> TokType list \<times> RpnItem list" where
  "pop_ops opr [] out = ([], out)"
| "pop_ops opr (tp # ops) out =
     (if tp = T_LP then (tp # ops, out)
      else (let p1 = precedence tp; p2 = precedence opr in
            if p1 > p2 \<or> (p1 = p2 \<and> \<not> is_right_assoc opr)
            then pop_ops opr ops (out @ [RpnItem_init\<lparr>ri_type := tp\<rparr>])
            else (tp # ops, out)))"

fun pop_to_lp :: "TokType list \<Rightarrow> RpnItem list \<Rightarrow> TokType list \<times> RpnItem list" where
  "pop_to_lp [] out = ([], out)"
| "pop_to_lp (tp # ops) out =
     (if tp \<noteq> T_LP then pop_to_lp ops (out @ [RpnItem_init\<lparr>ri_type := tp\<rparr>])
      else (tp # ops, out))"

fun pop_rest :: "TokType list \<Rightarrow> RpnItem list \<Rightarrow> RpnItem list" where
  "pop_rest [] out = out"
| "pop_rest (tp # ops) out =
     (if tp = T_LP then pop_rest ops out
      else pop_rest ops (out @ [RpnItem_init\<lparr>ri_type := tp\<rparr>]))"

definition push_op :: "TokType \<Rightarrow> TokType list \<times> RpnItem list \<Rightarrow> TokType list \<times> RpnItem list" where
  "push_op opr oo = (case pop_ops opr (fst oo) (snd oo) of (ops, out) \<Rightarrow> (opr # ops, out))"

text \<open>
  The body of the loop of \<^verbatim>\<open>to_rpn\<close> for a token that is neither \<^verbatim>\<open>T_BAD\<close> nor \<^verbatim>\<open>T_END\<close>:
  first the implicit AND, decided from the types of the previous and the current token,
  then the token itself, then \<^verbatim>\<open>prev = tok\<close>.
\<close>

definition implicit_and ::
  "Tok \<Rightarrow> Tok \<Rightarrow> TokType list \<times> RpnItem list \<Rightarrow> TokType list \<times> RpnItem list" where
  "implicit_and prev tok oo =
     (if is_value_token (tk_type prev) \<and> can_start_value (tk_type tok)
      then push_op T_AND oo else oo)"

definition rpn_token :: "TokType list \<times> RpnItem list \<Rightarrow> Tok \<Rightarrow> rpn_state option" where
  "rpn_token oo tok =
     (case oo of (ops, out) \<Rightarrow>
        if tk_type tok = T_TERM then
          (case normalize_term (tk_text tok) (tk_len tok) of
             None \<Rightarrow> None
           | Some (text, len) \<Rightarrow>
               (let tok' = tok\<lparr>tk_text := text, tk_len := len\<rparr>
                in if len > 0
                   then Some (ops,
                          out @ [\<lparr>ri_type = T_TERM,
                                  ri_text = take (len + 1) text @ replicate (255 - len) NUL,
                                  ri_len = len\<rparr>],
                          tok')
                   else Some (ops, out, tok')))
        else if tk_type tok = T_LP then Some (T_LP # ops, out, tok)
        else if tk_type tok = T_RP then
          (case pop_to_lp ops out of
             (ops', out') \<Rightarrow>
               Some ((case ops' of tp # r \<Rightarrow> if tp = T_LP then r else ops' | [] \<Rightarrow> ops'),
                     out', tok))
        else if tk_type tok = T_AND \<or> tk_type tok = T_OR \<or> tk_type tok = T_NOT then
          (case push_op (tk_type tok) (ops, out) of (ops', out') \<Rightarrow> Some (ops', out', tok))
        else Some (ops, out, tok))"

definition rpn_step :: "rpn_state \<Rightarrow> Tok \<Rightarrow> rpn_state option" where
  "rpn_step st tok =
     (case st of (ops0, out0, prev) \<Rightarrow> rpn_token (implicit_and prev tok (ops0, out0)) tok)"

text \<open>Every token but \<^verbatim>\<open>T_END\<close> consumes input: the loops over the line terminate.\<close>

lemma next_tok_shorter:
  "next_tok s = (tok, s') \<Longrightarrow> tk_type tok \<noteq> T_END \<Longrightarrow> length s' < length s"
proof -
  assume a: "next_tok s = (tok, s')" "tk_type tok \<noteq> T_END"
  have sk: "length (skip_spaces s) \<le> length s"
    by (simp add: skip_spaces_def length_dropWhile_le)
  show ?thesis
  proof (cases "skip_spaces s")
    case Nil
    with a show ?thesis by (auto simp: next_tok_def Tok_init_def)
  next
    case (Cons c rest)
    have r: "length rest < length s" using sk Cons by simp
    have d: "length (dropWhile is_ascii_alnum rest) \<le> length rest"
      by (rule length_dropWhile_le)
    from a Cons r d show ?thesis
      by (auto simp: next_tok_def Let_def split: if_splits list.splits)
  qed
qed

function to_rpn_loop :: "string \<Rightarrow> rpn_state \<Rightarrow> rpn_state option" where
  "to_rpn_loop s st =
     (case next_tok s of
        (tok, s') \<Rightarrow>
          if tk_type tok = T_BAD then to_rpn_loop s' st
          else if tk_type tok = T_END then Some st
          else (case rpn_step st tok of None \<Rightarrow> None | Some st' \<Rightarrow> to_rpn_loop s' st'))"
  by pat_completeness auto
termination
  by (relation "measure (\<lambda>(s, st). length s)") (auto dest: next_tok_shorter [OF sym])

declare to_rpn_loop.simps [simp del]

definition to_rpn :: "string \<Rightarrow> RpnItem list option" where
  "to_rpn line =
     (case to_rpn_loop line ([], [], Tok_init) of
        None \<Rightarrow> None
      | Some (ops, out, prev) \<Rightarrow> Some (pop_rest ops out))"

text \<open>The token stream of a line: what successive calls of \<^verbatim>\<open>next()\<close> return before \<^verbatim>\<open>T_END\<close>.\<close>

function tokens :: "string \<Rightarrow> Tok list" where
  "tokens s =
     (case next_tok s of (tok, s') \<Rightarrow> if tk_type tok = T_END then [] else tok # tokens s')"
  by pat_completeness auto
termination
  by (relation "measure length") (auto dest: next_tok_shorter [OF sym])

declare tokens.simps [simp del]

text \<open>
  \<^verbatim>\<open>postings_ptr\<close>: null (\<open>None\<close>) when the run would end after the file, else the byte
  offset of the run. The sum is computed in \<^verbatim>\<open>uint64_t\<close>.
\<close>

definition postings_ptr :: "Index \<Rightarrow> LexRec \<Rightarrow> nat option" where
  "postings_ptr idx r =
     (let need = (lr_postings_off r + lr_postings_len r * 4) mod 2 ^ 64
      in if need > length (ix_postings_file idx) then None else Some (lr_postings_off r))"

text \<open>
  \<^verbatim>\<open>copy_list(p, n)\<close> reads \<open>n\<close> doc-ids of four bytes each from the file, low byte first
  (the files are host-endian; the host is taken to be little-endian).
\<close>

definition read_u32 :: "8 word list \<Rightarrow> nat \<Rightarrow> u32" where
  "read_u32 f p =
     word_of_nat (unat (f ! p) + 256 * unat (f ! (p + 1)) + 65536 * unat (f ! (p + 2)) +
                  16777216 * unat (f ! (p + 3)))"

definition copy_list :: "8 word list \<Rightarrow> nat \<Rightarrow> nat \<Rightarrow> error + u32 list" where
  "copy_list f p n =
     (if n = 0 then Inr []
      else if p + 4 * n \<le> length f then Inr (map (\<lambda>i. read_u32 f (p + 4 * i)) [0 ..< n])
      else Inl BadRead)"

text \<open>
  The result stack \<^verbatim>\<open>ResStack\<close> is a list of owned arrays, top first; \<^verbatim>\<open>pop_safe\<close> on an
  empty stack gives the empty array.
\<close>

definition pop_safe :: "u32 list list \<Rightarrow> u32 list \<times> u32 list list" where
  "pop_safe st = (case st of [] \<Rightarrow> ([], []) | x # rest \<Rightarrow> (x, rest))"

text \<open>
  \<^verbatim>\<open>eval_rpn\<close> keeps one output vector \<^verbatim>\<open>tmp\<close> for all its combinator calls and pushes a
  copy of the cells in use on the stack.
\<close>

definition eval_item ::
  "Index \<Rightarrow> RpnItem \<Rightarrow> u32 list list \<times> U32Vec \<Rightarrow> (error + u32 list list \<times> U32Vec) option" where
  "eval_item idx it s =
     (case s of (st, tmp) \<Rightarrow>
      if ri_type it = T_TERM then
        (case find_term idx (ri_text it) (ri_len it) of
           Inl e \<Rightarrow> Some (Inl e)
         | Inr None \<Rightarrow> Some (Inr ([] # st, tmp))
         | Inr (Some lex_i) \<Rightarrow>
             (let r = ix_lex idx ! lex_i in
              case postings_ptr idx r of
                None \<Rightarrow> Some (Inr ([] # st, tmp))
              | Some p \<Rightarrow>
                  if lr_postings_len r = 0 then Some (Inr ([] # st, tmp))
                  else (case copy_list (ix_postings_file idx) p (lr_postings_len r) of
                          Inl e \<Rightarrow> Some (Inl e)
                        | Inr l \<Rightarrow> Some (Inr (l # st, tmp)))))
      else if ri_type it = T_NOT then
        (case pop_safe st of
           (a, st1) \<Rightarrow>
             (case op_not (Index_doc_count idx) a tmp of
                None \<Rightarrow> None
              | Some (Inl e) \<Rightarrow> Some (Inl e)
              | Some (Inr tmp') \<Rightarrow> Some (Inr (uv_a tmp' # st1, tmp'))))
      else if ri_type it = T_AND \<or> ri_type it = T_OR then
        (case pop_safe st of
           (b, st1) \<Rightarrow>
             (case pop_safe st1 of
                (a, st2) \<Rightarrow>
                  if ri_type it = T_AND then
                    (if length a = 0 \<or> length b = 0 then Some (Inr ([] # st2, tmp))
                     else (case op_and a b tmp of
                             None \<Rightarrow> None
                           | Some (Inl e) \<Rightarrow> Some (Inl e)
                           | Some (Inr tmp') \<Rightarrow> Some (Inr (uv_a tmp' # st2, tmp'))))
                  else
                    (if length a = 0 \<and> length b = 0 then Some (Inr ([] # st2, tmp))
                     else if length a = 0 then Some (Inr (b # st2, tmp))
                     else if length b = 0 then Some (Inr (a # st2, tmp))
                     else (case op_or a b tmp of
                             None \<Rightarrow> None
                           | Some (Inl e) \<Rightarrow> Some (Inl e)
                           | Some (Inr tmp') \<Rightarrow> Some (Inr (uv_a tmp' # st2, tmp'))))))
      else Some (Inr (st, tmp)))"

fun eval_loop ::
  "Index \<Rightarrow> RpnItem list \<Rightarrow> u32 list list \<times> U32Vec \<Rightarrow> (error + u32 list list \<times> U32Vec) option" where
  "eval_loop idx [] s = Some (Inr s)"
| "eval_loop idx (it # rpn) s =
     (case eval_item idx it s of
        None \<Rightarrow> None
      | Some (Inl e) \<Rightarrow> Some (Inl e)
      | Some (Inr s') \<Rightarrow> eval_loop idx rpn s')"

definition eval_rpn :: "Index \<Rightarrow> RpnItem list \<Rightarrow> (error + u32 list) option" where
  "eval_rpn idx rpn =
     (case eval_loop idx rpn ([], U32Vec_init) of
        None \<Rightarrow> None
      | Some (Inl e) \<Rightarrow> Some (Inl e)
      | Some (Inr (st, tmp)) \<Rightarrow> Some (Inr (fst (pop_safe st))))"

text \<open>
  One query line, as \<^verbatim>\<open>main\<close> handles it: \<^verbatim>\<open>to_rpn\<close>, then \<^verbatim>\<open>eval_rpn\<close>; the hit count
  printed is the length of the result. \<open>None\<close>: a write outside a token buffer, or a
  combinator that does not return.
\<close>

definition run_query :: "Index \<Rightarrow> string \<Rightarrow> (error + u32 list) option" where
  "run_query idx line = (case to_rpn line of None \<Rightarrow> None | Some rpn \<Rightarrow> eval_rpn idx rpn)"

text \<open>
  For the proofs: an operator stack holding only \<^verbatim>\<open>T_AND\<close>, \<^verbatim>\<open>T_OR\<close> and \<^verbatim>\<open>T_LP\<close>, and
  a postfix output holding only \<^verbatim>\<open>T_AND\<close> and \<^verbatim>\<open>T_OR\<close>.
\<close>

definition ops_ok :: "TokType list \<Rightarrow> bool" where
  "ops_ok ops = list_all (\<lambda>t. t = T_AND \<or> t = T_OR \<or> t = T_LP) ops"

definition out_ok :: "RpnItem list \<Rightarrow> bool" where
  "out_ok out = list_all (\<lambda>it. ri_type it = T_AND \<or> ri_type it = T_OR) out"

section \<open>The index builder (indexer.cpp, main)\<close>

text \<open>
  The builder reads the manifest line by line, indexes each document into the term table,
  writes the table out as a sorted block whenever it reaches the memory limit, writes
  \<^verbatim>\<open>docs.bin\<close>, and merges the blocks into \<^verbatim>\<open>lexicon.bin\<close> and \<^verbatim>\<open>postings.bin\<close>. The files
  are modelled by their contents: headers with their magic and counts, records and pools.
  The reserved bytes of the headers and the progress output are left out.
\<close>

subsection \<open>Manifest lines\<close>

text \<open>
  A line of the manifest is what \<^verbatim>\<open>fgets\<close> stored in the buffer; the functions below see of
  it the bytes before the first NUL.
\<close>

definition c_str :: "string \<Rightarrow> string" where
  "c_str s = takeWhile (\<lambda>c. c \<noteq> NUL) s"

text \<open>\<^verbatim>\<open>strstr\<close>: the suffix of the text that starts with the pattern, if there is one.\<close>

fun strstr :: "string \<Rightarrow> string \<Rightarrow> string option" where
  "strstr [] pat = (if pat = [] then Some [] else None)"
| "strstr (c # cs) pat =
     (if take (length pat) (c # cs) = pat then Some (c # cs) else strstr cs pat)"

text \<open>
  The copy loop of \<^verbatim>\<open>extract_json_string\<close>: up to the closing quote, the end of the line or
  \<open>n\<close> bytes; a backslash followed by a byte is dropped and that byte copied.
\<close>

fun copy_quoted :: "string \<Rightarrow> nat \<Rightarrow> string" where
  "copy_quoted [] n = []"
| "copy_quoted [c] n = (if c = CHR 0x22 \<or> n = 0 then [] else [c])"
| "copy_quoted (c # d # cs) n =
     (if c = CHR 0x22 \<or> n = 0 then []
      else if c = CHR 0x5C then d # copy_quoted cs (n - 1)
      else c # copy_quoted (d # cs) (n - 1))"

text \<open>\<open>None\<close> is the result 0, with \<^verbatim>\<open>out\<close> untouched; \<open>Some out\<close> the result 1.\<close>

definition extract_json_string :: "string \<Rightarrow> string \<Rightarrow> nat \<Rightarrow> string option" where
  "extract_json_string line key out_cap =
     (let pat = take 63 ([CHR 0x22] @ key @ [CHR 0x22, CHR '':'']) in
      case strstr (c_str line) pat of
        None \<Rightarrow> None
      | Some p0 \<Rightarrow>
          (case dropWhile (\<lambda>c. c = CHR '' '' \<or> c = CHR 0x09) (drop (length pat) p0) of
             [] \<Rightarrow> None
           | c # p \<Rightarrow> if c \<noteq> CHR 0x22 then None else Some (copy_quoted p (out_cap - 1))))"

subsection \<open>docs.bin\<close>

record DocRec =
  dr_title_off :: nat
  dr_title_len :: nat
  dr_url_off :: nat
  dr_url_len :: nat

record DocsBuilder =
  db_recs :: "DocRec list"
  db_pool :: string

definition DocsBuilder_init :: DocsBuilder where
  "DocsBuilder_init = \<lparr>db_recs = [], db_pool = []\<rparr>"

definition add_doc :: "DocsBuilder \<Rightarrow> string \<Rightarrow> string \<Rightarrow> DocsBuilder" where
  "add_doc db title url =
     (let title_off = length (db_pool db);
          title_len = length title;
          pool1 = db_pool db @ title @ [NUL];
          url_off = length pool1;
          url_len = length url;
          pool2 = pool1 @ url @ [NUL]
      in \<lparr>db_recs = db_recs db @ [\<lparr>dr_title_off = title_off, dr_title_len = title_len,
                                   dr_url_off = url_off, dr_url_len = url_len\<rparr>],
          db_pool = pool2\<rparr>)"

record DocsFile =
  df_header :: DocsHeader
  df_recs :: "DocRec list"
  df_pool :: string

definition docs_write_to :: "DocsBuilder \<Rightarrow> DocsFile" where
  "docs_write_to db =
     \<lparr>df_header = \<lparr>dh_magic = ''DOCS'', dh_version = 1,
                     dh_doc_count = word_of_nat (length (db_recs db)),
                     dh_string_pool_bytes = word_of_nat (length (db_pool db))\<rparr>,
      df_recs = db_recs db, df_pool = db_pool db\<rparr>"

subsection \<open>Blocks\<close>

text \<open>
  \<^verbatim>\<open>write_block\<close> collects the occupied slots (\<^verbatim>\<open>arr\<close> has room for \<^verbatim>\<open>used\<close> of them), sorts them
  with \<^verbatim>\<open>term_cmp_lex\<close> and writes each term with its postings; it reads the term of every
  occupied slot.
\<close>

record BlockEntry =
  be_term_len :: nat
  be_df :: nat
  be_term :: string
  be_docs :: "u32 list"

record BlockFile =
  bf_magic :: string
  bf_term_count :: nat
  bf_entries :: "BlockEntry list"

definition term_cmp_lex :: "TermEntry \<Rightarrow> TermEntry \<Rightarrow> error + int" where
  "term_cmp_lex ea eb =
     (let la = te_len ea; lb = te_len eb;
          m = (if la < lb then la else lb)
      in case memcmp (te_term ea) (te_term eb) m of
           Inl e \<Rightarrow> Inl e
         | Inr c \<Rightarrow> if c \<noteq> 0 then Inr c
                    else Inr (if la < lb then - 1 else (if la > lb then 1 else 0)))"

text \<open>\<^verbatim>\<open>qsort\<close> with a comparator: here insertion into a sorted list.\<close>

fun insert_by :: "('a \<Rightarrow> 'a \<Rightarrow> bool) \<Rightarrow> 'a \<Rightarrow> 'a list \<Rightarrow> 'a list" where
  "insert_by le x [] = [x]"
| "insert_by le x (y # ys) = (if le x y then x # y # ys else y # insert_by le x ys)"

definition qsort_by :: "('a \<Rightarrow> 'a \<Rightarrow> error + int) \<Rightarrow> 'a list \<Rightarrow> 'a list" where
  "qsort_by cmp xs =
     foldr (insert_by (\<lambda>a b. case cmp a b of Inr c \<Rightarrow> c \<le> 0 | Inl e \<Rightarrow> True)) xs []"

definition write_block :: "TermTable \<Rightarrow> error + BlockFile" where
  "write_block tt =
     (let arr = filter (\<lambda>e. te_hash e \<noteq> 0) (take (tt_cap tt) (tt_tab tt));
          sorted_arr = qsort_by term_cmp_lex arr
      in if list_ex (\<lambda>e. te_buf e \<noteq> ar_buf (tt_arena tt)) arr then Inl BadRead
         else Inr \<lparr>bf_magic = ''BLK1'', bf_term_count = length sorted_arr,
                   bf_entries =
                     map (\<lambda>e. \<lparr>be_term_len = te_len e, be_df = ul_n (te_post e),
                                be_term = take (te_len e) (te_term e),
                                be_docs = take (ul_n (te_post e)) (ul_a (te_post e))\<rparr>)
                       sorted_arr\<rparr>)"

subsection \<open>The merge (merge_blocks_to_index)\<close>

text \<open>
  The output directory: the files of \<^verbatim>\<open>blocks/\<close> by name, in the order \<^verbatim>\<open>readdir\<close> lists them,
  and the three index files, \<open>None\<close> while they do not exist. A \<^verbatim>\<open>BlockReader\<close> holds the
  entries still to read and the current one (\<open>None\<close> for \<^verbatim>\<open>term == nullptr\<close>); a block that
  ends before its \<^verbatim>\<open>term_count\<close> entries, or an entry shorter than its lengths, makes \<^verbatim>\<open>next\<close>
  exit with status 1.
\<close>

record PostHeader =
  ph_magic :: string
  ph_version :: u32

record PostFile =
  pf_header :: PostHeader
  pf_docs :: "u32 list"

record LexFile =
  lf_header :: LexHeader
  lf_recs :: "LexRec list"
  lf_pool :: string

record FS =
  fs_blocks :: "(string \<times> BlockFile) list"
  fs_docs :: "DocsFile option"
  fs_lex :: "LexFile option"
  fs_post :: "PostFile option"

record BlockReader =
  br_remaining :: nat
  br_cur :: "BlockEntry option"
  br_rest :: "BlockEntry list"

definition br_has :: "BlockReader \<Rightarrow> bool" where
  "br_has r = (br_cur r \<noteq> None)"

definition br_next :: "BlockReader \<Rightarrow> error + BlockReader" where
  "br_next r =
     (if br_remaining r = 0 then Inr (r\<lparr>br_cur := None\<rparr>)
      else (case br_rest r of
              [] \<Rightarrow> Inl (Exit 1)
            | e # es \<Rightarrow>
                if length (be_term e) \<noteq> be_term_len e \<or> length (be_docs e) \<noteq> be_df e
                then Inl (Exit 1)
                else Inr \<lparr>br_remaining = br_remaining r - 1, br_cur = Some e, br_rest = es\<rparr>))"

definition br_open :: "BlockFile option \<Rightarrow> error + BlockReader" where
  "br_open f =
     (case f of
        None \<Rightarrow> Inl (Exit 1)
      | Some bf \<Rightarrow>
          if bf_magic bf \<noteq> ''BLK1'' then Inl (Exit 1)
          else br_next \<lparr>br_remaining = bf_term_count bf, br_cur = None, br_rest = bf_entries bf\<rparr>)"

definition lex_cmp_str :: "string \<Rightarrow> nat \<Rightarrow> string \<Rightarrow> nat \<Rightarrow> error + int" where
  "lex_cmp_str a alen b blen =
     (let m = (if alen < blen then alen else blen) in
      case memcmp a b m of
        Inl e \<Rightarrow> Inl e
      | Inr c \<Rightarrow> if c \<noteq> 0 then Inr c
                 else Inr (if alen < blen then - 1 else (if alen > blen then 1 else 0)))"

text \<open>The scan for the reader with the smallest current term; \<open>None\<close> is \<^verbatim>\<open>min_i = -1\<close>.\<close>

fun select_min :: "BlockReader list \<Rightarrow> nat \<Rightarrow> nat option \<Rightarrow> BlockReader list \<Rightarrow> error + nat option" where
  "select_min br i min_i [] = Inr min_i"
| "select_min br i min_i (r # rs) =
     (case br_cur r of
        None \<Rightarrow> select_min br (i + 1) min_i rs
      | Some e \<Rightarrow>
          (case min_i of
             None \<Rightarrow> select_min br (i + 1) (Some i) rs
           | Some m \<Rightarrow>
               (case br_cur (br ! m) of
                  None \<Rightarrow> Inl BadRead
                | Some em \<Rightarrow>
                    (case lex_cmp_str (be_term e) (be_term_len e) (be_term em) (be_term_len em) of
                       Inl err \<Rightarrow> Inl err
                     | Inr c \<Rightarrow> select_min br (i + 1) (if c < 0 then Some i else Some m) rs))))"

text \<open>
  The loop that folds every reader standing at the chosen term into \<^verbatim>\<open>merged\<close>. The source
  keeps the pointer \<^verbatim>\<open>cur_term\<close> into the chosen reader across its \<^verbatim>\<open>next()\<close>; here
  \<open>cur_term\<close> is the bytes it addressed when it was taken.
\<close>

fun merge_same ::
  "string \<Rightarrow> nat \<Rightarrow> BlockReader list \<Rightarrow> u32 list \<Rightarrow> BlockReader list \<Rightarrow>
   error + (BlockReader list \<times> u32 list)" where
  "merge_same cur_term cur_len done merged [] = Inr (done, merged)"
| "merge_same cur_term cur_len done merged (r # rs) =
     (case br_cur r of
        None \<Rightarrow> merge_same cur_term cur_len (done @ [r]) merged rs
      | Some e \<Rightarrow>
          if be_term_len e = cur_len \<and> memcmp (be_term e) cur_term cur_len = Inr 0 then
            (case br_next r of
               Inl err \<Rightarrow> Inl err
             | Inr r' \<Rightarrow>
                 merge_same cur_term cur_len (done @ [r'])
                   (out_list (merge_union_u32 merged (be_docs e))) rs)
          else merge_same cur_term cur_len (done @ [r]) merged rs)"

record LexBuilder =
  lb_recs :: "LexRec list"
  lb_pool :: string

definition lex_add_term :: "LexBuilder \<Rightarrow> string \<Rightarrow> nat \<Rightarrow> nat \<Rightarrow> nat \<Rightarrow> LexBuilder" where
  "lex_add_term lb trm tlen postings_off postings_len =
     \<lparr>lb_recs = lb_recs lb @
        [\<lparr>lr_term_off = length (lb_pool lb), lr_term_len = tlen, lr_flags = 0,
          lr_df = postings_len, lr_postings_off = postings_off,
          lr_postings_len = postings_len, lr_reserved = 0\<rparr>],
      lb_pool = lb_pool lb @ take tlen trm @ [NUL]\<rparr>"

definition lex_write_to :: "LexBuilder \<Rightarrow> LexFile" where
  "lex_write_to lb =
     \<lparr>lf_header = \<lparr>lh_magic = ''LEXI'', lh_version = 1,
                     lh_term_count = word_of_nat (length (lb_recs lb)),
                     lh_string_pool_bytes = word_of_nat (length (lb_pool lb))\<rparr>,
      lf_recs = qsort_by (lexrec_cmp_by_term (lb_pool lb)) (lb_recs lb),
      lf_pool = lb_pool lb\<rparr>"

type_synonym merge_state = "BlockReader list \<times> u32 list \<times> nat \<times> LexBuilder"

definition merge_round :: "merge_state \<Rightarrow> nat \<Rightarrow> error + merge_state" where
  "merge_round st min_i =
     (case st of (br, post, postings_cursor, lb) \<Rightarrow>
        (case br_cur (br ! min_i) of
           None \<Rightarrow> Inl BadRead
         | Some e \<Rightarrow>
             (case br_next (br ! min_i) of
                Inl err \<Rightarrow> Inl err
              | Inr r' \<Rightarrow>
                  (case merge_same (be_term e) (be_term_len e) [] (be_docs e) (br[min_i := r']) of
                     Inl err \<Rightarrow> Inl err
                   | Inr (br', merged) \<Rightarrow>
                       Inr (br', post @ merged, postings_cursor + length merged * 4,
                            lex_add_term lb (be_term e) (be_term_len e) postings_cursor
                              (length merged))))))"

partial_function (option) merge_loop :: "merge_state \<Rightarrow> (error option \<times> merge_state) option" where
  "merge_loop st =
     (case select_min (fst st) 0 None (fst st) of
        Inl err \<Rightarrow> Some (Some err, st)
      | Inr None \<Rightarrow> Some (None, st)
      | Inr (Some min_i) \<Rightarrow>
          (case merge_round st min_i of
             Inl err \<Rightarrow> Some (Some err, st)
           | Inr st' \<Rightarrow> merge_loop st'))"

declare merge_loop.simps [code]

fun open_all :: "(string \<times> BlockFile) list \<Rightarrow> string list \<Rightarrow> error + BlockReader list" where
  "open_all files [] = Inr []"
| "open_all files (nm # names) =
     (case br_open (map_of files nm) of
        Inl err \<Rightarrow> Inl err
      | Inr r \<Rightarrow> (case open_all files names of Inl err \<Rightarrow> Inl err | Inr rs \<Rightarrow> Inr (r # rs)))"

definition is_blk_name :: "string \<Rightarrow> bool" where
  "is_blk_name nm = (\<not> length nm < 4 \<and> drop (length nm - 4) nm = ''.blk'')"

text \<open>
  \<^verbatim>\<open>merge_blocks_to_index\<close>: the status it ends with (\<open>None\<close>: it returns) and the files
  it leaves.
\<close>

definition merge_blocks_to_index :: "FS \<Rightarrow> (error option \<times> FS) option" where
  "merge_blocks_to_index fs =
     (let names = filter is_blk_name (map fst (fs_blocks fs)) in
      if length names = 0 then Some (Some (Exit 1), fs)
      else
        (case open_all (fs_blocks fs) names of
           Inl err \<Rightarrow> Some (Some err, fs)
         | Inr br \<Rightarrow>
             (let ph = \<lparr>ph_magic = ''POST'', ph_version = 1\<rparr> in
              case merge_loop (br, [], 40, \<lparr>lb_recs = [], lb_pool = []\<rparr>) of
                None \<Rightarrow> None
              | Some (Some err, (br', post, cursor, lb)) \<Rightarrow>
                  Some (Some err, fs\<lparr>fs_post := Some \<lparr>pf_header = ph, pf_docs = post\<rparr>\<rparr>)
              | Some (None, (br', post, cursor, lb)) \<Rightarrow>
                  Some (None, fs\<lparr>fs_post := Some \<lparr>pf_header = ph, pf_docs = post\<rparr>,
                                 fs_lex := Some (lex_write_to lb)\<rparr>))))"

subsection \<open>main\<close>

text \<open>The block file name \<^verbatim>\<open>block_%04u.blk\<close>.\<close>

function dec_digits :: "nat \<Rightarrow> string" where
  "dec_digits n =
     (if n < 10 then [char_of (48 + n)] else dec_digits (n div 10) @ [char_of (48 + n mod 10)])"
  by pat_completeness auto
termination
  by (relation "measure (\<lambda>n. n)") auto

declare dec_digits.simps [simp del]

definition block_name :: "u32 \<Rightarrow> string" where
  "block_name block_id =
     (let d = dec_digits (unat block_id)
      in ''block_'' @ replicate (4 - length d) (CHR ''0'') @ d @ ''.blk'')"

fun fs_put :: "string \<Rightarrow> BlockFile \<Rightarrow> (string \<times> BlockFile) list \<Rightarrow> (string \<times> BlockFile) list" where
  "fs_put nm bf [] = [(nm, bf)]"
| "fs_put nm bf ((nm', bf') # files) =
     (if nm' = nm then (nm, bf) # files else (nm', bf') # fs_put nm bf files)"

record build_state =
  bs_docs :: DocsBuilder
  bs_tt :: TermTable
  bs_dset :: DocTermSet
  bs_doc_id :: u32
  bs_block_id :: u32
  bs_fs :: FS

text \<open>The block \<^verbatim>\<open>write_block(blk_path, &tt); tt.clear();\<close> with its \<^verbatim>\<open>block_id++\<close>.\<close>

definition flush_block :: "build_state \<Rightarrow> error + build_state" where
  "flush_block st =
     (case write_block (bs_tt st) of
        Inl err \<Rightarrow> Inl err
      | Inr bf \<Rightarrow>
          Inr (st\<lparr>bs_fs := (bs_fs st)\<lparr>fs_blocks :=
                          fs_put (block_name (bs_block_id st)) bf (fs_blocks (bs_fs st))\<rparr>,
                   bs_tt := TermTable_clear (bs_tt st),
                   bs_block_id := bs_block_id st + 1\<rparr>))"

text \<open>
  One manifest line. \<open>corpus\<close> gives the bytes of \<^verbatim>\<open><corpus>/<doc_id>.txt\<close>, or \<open>None\<close> when
  the file cannot be opened; \<open>mem_limit\<close> is \<^verbatim>\<open>mem_mb * 1024 * 1024\<close>.
\<close>

definition main_line ::
  "(string \<Rightarrow> string option) \<Rightarrow> nat \<Rightarrow> build_state \<Rightarrow> string \<Rightarrow>
   (error + build_state) option" where
  "main_line corpus mem_limit st line =
     (case extract_json_string line ''doc_id'' 64 of
        None \<Rightarrow> Some (Inr st)
      | Some docid_str \<Rightarrow>
          (let title0 = (case extract_json_string line ''title'' 4096 of None \<Rightarrow> [] | Some t \<Rightarrow> t);
               url = (case extract_json_string line ''url'' 8192 of None \<Rightarrow> [] | Some u \<Rightarrow> u);
               title = (if title0 = [] then docid_str else title0);
               docs = add_doc (bs_docs st) title url
           in case process_one_doc (corpus docid_str) (bs_doc_id st) (bs_tt st) (bs_dset st) of
                None \<Rightarrow> None
              | Some (Inl err) \<Rightarrow> Some (Inl err)
              | Some (Inr (rc, tt, dset)) \<Rightarrow>
                  (let st1 = st\<lparr>bs_docs := docs, bs_tt := tt, bs_dset := dset,
                                 bs_doc_id := bs_doc_id st + 1\<rparr>
                   in if approx_mem_bytes tt \<ge> mem_limit then Some (flush_block st1)
                      else Some (Inr st1))))"

fun main_lines ::
  "(string \<Rightarrow> string option) \<Rightarrow> nat \<Rightarrow> build_state \<Rightarrow> string list \<Rightarrow>
   (error + build_state) option" where
  "main_lines corpus mem_limit st [] = Some (Inr st)"
| "main_lines corpus mem_limit st (line # lines) =
     (case main_line corpus mem_limit st line of
        None \<Rightarrow> None
      | Some (Inl err) \<Rightarrow> Some (Inl err)
      | Some (Inr st') \<Rightarrow> main_lines corpus mem_limit st' lines)"

text \<open>
  \<^verbatim>\<open>main\<close> of the indexer, after its arguments are read: the manifest as its lines (\<open>None\<close>:
  it cannot be opened), the corpus, the memory limit and the output directory before the
  run. The result \<open>Inr (n, fs)\<close> is the exit status of the process (0 for \<^verbatim>\<open>return 0\<close>) and
  the output directory it leaves; \<open>Inl BadRead\<close> is a run with an access outside an
  object. Writing a file is taken to succeed.
\<close>

definition indexer_main ::
  "string list option \<Rightarrow> (string \<Rightarrow> string option) \<Rightarrow> nat \<Rightarrow> FS \<Rightarrow> (error + nat \<times> FS) option" where
  "indexer_main manifest corpus mem_limit fs0 =
     (let st0 = \<lparr>bs_docs = DocsBuilder_init, bs_tt = TermTable_init (2 ^ 21) (128 * 2 ^ 20),
                  bs_dset = DocTermSet_init (2 ^ 17) (2 * 2 ^ 20), bs_doc_id = 0,
                  bs_block_id = 0, bs_fs = fs0\<rparr>
      in case manifest of
           None \<Rightarrow> Some (Inr (1, fs0))
         | Some lines \<Rightarrow>
             (case main_lines corpus mem_limit st0 lines of
                None \<Rightarrow> None
              | Some (Inl err) \<Rightarrow> Some (Inl err)
              | Some (Inr st1) \<Rightarrow>
                  (case (if tt_used (bs_tt st1) > 0 then flush_block st1 else Inr st1) of
                     Inl err \<Rightarrow> Some (Inl err)
                   | Inr st2 \<Rightarrow>
                       (let fs1 = (bs_fs st2)\<lparr>fs_docs := Some (docs_write_to (bs_docs st2))\<rparr>
                        in case merge_blocks_to_index fs1 of
                             None \<Rightarrow> None
                           | Some (None, fs2) \<Rightarrow> Some (Inr (0, fs2))
                           | Some (Some (Exit n), fs2) \<Rightarrow> Some (Inr (n, fs2))
                           | Some (Some BadRead, fs2) \<Rightarrow> Some (Inl BadRead)))))"

definition fs_empty :: FS where
  "fs_empty = \<lparr>fs_blocks = [], fs_docs = None, fs_lex = None, fs_post = None\<rparr>"

text \<open>The \<^verbatim>\<open>docs.bin\<close> of a build without documents.\<close>

definition docs_file_empty :: DocsFile where
  "docs_file_empty =
     \<lparr>df_header = \<lparr>dh_magic = ''DOCS'', dh_version = 1, dh_doc_count = 0,
                     dh_string_pool_bytes = 0\<rparr>,
      df_recs = [], df_pool = []\<rparr>"

section \<open>Properties of the builder's posting lists\<close>

lemma ul_wf_init: "ul_wf U32List_init"
  by (simp add: ul_wf_def U32List_init_def)

lemma ul_list_init: "ul_list U32List_init = []"
  by (simp add: ul_list_def U32List_init_def)

lemma ul_grow_wf:
  assumes "ul_wf l"
  shows "ul_wf (ul_grow l)" and "ul_n (ul_grow l) < ul_cap (ul_grow l)"
    and "ul_list (ul_grow l) = ul_list l" and "ul_n (ul_grow l) = ul_n l"
  using assms by (auto simp: ul_wf_def ul_grow_def ul_list_def Let_def)

lemma push_unique_sorted_wf: "ul_wf l \<Longrightarrow> ul_wf (push_unique_sorted l v)"
proof -
  assume wf: "ul_wf l"
  show ?thesis
  proof (cases "ul_n l > 0 \<and> ul_a l ! (ul_n l - 1) = v")
    case True
    then show ?thesis using wf by (simp add: push_unique_sorted_def)
  next
    case False
    from ul_grow_wf [OF wf] have "ul_wf (ul_grow l)" "ul_n (ul_grow l) < ul_cap (ul_grow l)"
      by simp_all
    with False show ?thesis
      by (auto simp: push_unique_sorted_def Let_def ul_wf_def)
  qed
qed

lemma ul_last:
  assumes "ul_wf l" and "0 < ul_n l"
  shows "ul_a l ! (ul_n l - 1) = last (ul_list l)"
proof -
  have ne: "take (ul_n l) (ul_a l) \<noteq> []" and len: "length (take (ul_n l) (ul_a l)) = ul_n l"
    using assms by (auto simp: ul_wf_def)
  have "last (take (ul_n l) (ul_a l)) = take (ul_n l) (ul_a l) ! (ul_n l - 1)"
    using ne len by (simp add: last_conv_nth)
  also have "\<dots> = ul_a l ! (ul_n l - 1)"
    using assms(2) by simp
  finally show ?thesis by (simp add: ul_list_def)
qed

lemma ul_list_empty: "ul_wf l \<Longrightarrow> (ul_list l = []) = (ul_n l = 0)"
  by (auto simp: ul_wf_def ul_list_def)

lemma push_unique_sorted_list:
  assumes wf: "ul_wf l"
  shows "ul_list (push_unique_sorted l v) =
    (if ul_list l \<noteq> [] \<and> last (ul_list l) = v then ul_list l else ul_list l @ [v])"
proof (cases "ul_n l > 0 \<and> ul_a l ! (ul_n l - 1) = v")
  case True
  then show ?thesis
    using ul_last [OF wf] ul_list_empty [OF wf] by (simp add: push_unique_sorted_def)
next
  case False
  from ul_grow_wf [OF wf]
  have g: "ul_wf (ul_grow l)" "ul_n (ul_grow l) < ul_cap (ul_grow l)"
    "ul_list (ul_grow l) = ul_list l" "ul_n (ul_grow l) = ul_n l"
    by simp_all
  have "push_unique_sorted l v =
      (ul_grow l)\<lparr>ul_a := (ul_a (ul_grow l))[ul_n (ul_grow l) := v], ul_n := ul_n (ul_grow l) + 1\<rparr>"
    unfolding push_unique_sorted_def Let_def using False by (simp only: if_False)
  then have "ul_list (push_unique_sorted l v) = take (ul_n (ul_grow l)) (ul_a (ul_grow l)) @ [v]"
    using g(1,2) by (simp add: ul_list_def ul_wf_def take_Suc_conv_app_nth)
  also have "\<dots> = ul_list l @ [v]"
    using g(3) by (simp add: ul_list_def)
  finally show ?thesis
    using False ul_last [OF wf] ul_list_empty [OF wf] by auto
qed

lemma push_all_wf: "ul_wf l \<Longrightarrow> ul_wf (foldl push_unique_sorted l ds)"
  by (induction ds arbitrary: l) (simp_all add: push_unique_sorted_wf)

lemma push_all_sorted:
  assumes "ul_wf l" and "sorted_wrt (<) (ul_list l)" and "sorted ds"
    and "\<forall>x \<in> set (ul_list l). \<forall>d \<in> set ds. x \<le> d"
  shows "sorted_wrt (<) (ul_list (foldl push_unique_sorted l ds)) \<and>
         set (ul_list (foldl push_unique_sorted l ds)) = set (ul_list l) \<union> set ds"
  using assms
proof (induction ds arbitrary: l)
  case Nil
  then show ?case by simp
next
  case (Cons d ds)
  let ?l = "push_unique_sorted l d"
  have wf': "ul_wf ?l" using Cons.prems(1) by (rule push_unique_sorted_wf)
  have eq: "ul_list ?l =
      (if ul_list l \<noteq> [] \<and> last (ul_list l) = d then ul_list l else ul_list l @ [d])"
    using Cons.prems(1) by (rule push_unique_sorted_list)
  have le: "\<forall>x \<in> set (ul_list l). x \<le> d" using Cons.prems(4) by simp
  have set': "set (ul_list ?l) = insert d (set (ul_list l))"
    using eq by (auto simp: last_in_set)
  have sorted': "sorted_wrt (<) (ul_list ?l)"
  proof (cases "ul_list l \<noteq> [] \<and> last (ul_list l) = d")
    case True
    then show ?thesis using eq Cons.prems(2) by simp
  next
    case False
    have "\<forall>x \<in> set (ul_list l). x < d"
    proof
      fix x assume x: "x \<in> set (ul_list l)"
      then have ne: "ul_list l \<noteq> []" by auto
      with False have neq: "last (ul_list l) \<noteq> d" by simp
      from x obtain i where i: "i < length (ul_list l)" "x = ul_list l ! i"
        by (auto simp: in_set_conv_nth)
      have "x \<le> last (ul_list l)"
      proof (cases "i = length (ul_list l) - 1")
        case True
        then show ?thesis using i ne by (simp add: last_conv_nth)
      next
        case False
        then have "i < length (ul_list l) - 1" using i by simp
        then have "ul_list l ! i < ul_list l ! (length (ul_list l) - 1)"
          using Cons.prems(2) ne by (simp add: sorted_wrt_iff_nth_less)
        then show ?thesis using i ne by (simp add: last_conv_nth)
      qed
      moreover have "last (ul_list l) \<le> d" using le ne by simp
      ultimately show "x < d" using neq by simp
    qed
    then show ?thesis using eq False Cons.prems(2) by (simp add: sorted_wrt_append)
  qed
  have bound': "\<forall>x \<in> set (ul_list ?l). \<forall>e \<in> set ds. x \<le> e"
    using set' Cons.prems(3,4) by auto
  have "sorted ds" using Cons.prems(3) by simp
  from Cons.IH [OF wf' sorted' this bound'] show ?case
    using set' by auto
qed

text \<open>
  C5. Calls \<^verbatim>\<open>push_unique_sorted(d1)\<close>, \<^verbatim>\<open>push_unique_sorted(d2)\<close>, ... with
  \<open>d1 \<le> d2 \<le> ...\<close> on a fresh posting list (\<^verbatim>\<open>U32List{}\<close>, as \<^verbatim>\<open>get_or_create\<close> makes it)
  leave a posting list that is strictly increasing, hence free of duplicates, and that
  holds exactly the doc-ids pushed: comparing with the last element only is enough.
\<close>

theorem push_unique_sorted_strict:
  assumes "sorted ds"
  shows "sorted_wrt (<) (ul_list (foldl push_unique_sorted U32List_init ds)) \<and>
         distinct (ul_list (foldl push_unique_sorted U32List_init ds)) \<and>
         set (ul_list (foldl push_unique_sorted U32List_init ds)) = set ds"
proof -
  have "sorted_wrt (<) (ul_list (foldl push_unique_sorted U32List_init ds)) \<and>
        set (ul_list (foldl push_unique_sorted U32List_init ds)) =
          set (ul_list U32List_init) \<union> set ds"
    using assms by (intro push_all_sorted) (simp_all add: ul_wf_init ul_list_init)
  then show ?thesis
    by (simp add: ul_list_init strict_sorted_iff)
qed

theorem push_unique_sorted_strict_witness:
  "sorted [0, 0, 1, 3, 3, 3, 7 :: u32] \<and>
   ul_list (foldl push_unique_sorted U32List_init [0, 0, 1, 3, 3, 3, 7]) = [0, 1, 3, 7] \<and>
   sorted_wrt (<) (ul_list (foldl push_unique_sorted U32List_init [0, 0, 1, 3, 3, 3, 7 :: u32]))"
proof -
  have s: "sorted [0, 0, 1, 3, 3, 3, 7 :: u32]" by simp
  have e: "ul_list (foldl push_unique_sorted U32List_init [0, 0, 1, 3, 3, 3, 7]) = [0, 1, 3, 7]"
    by code_simp
  show ?thesis using s e push_unique_sorted_strict [OF s] by simp
qed

section \<open>Properties of the term table\<close>

lemma and_mask_mod: "(n::nat) AND (2 ^ k - 1) = n mod 2 ^ k"
  by (metis mask_eq_exp_minus_1 take_bit_eq_mask take_bit_eq_mod)

lemma cyc_dist:
  fixes cap pos e :: nat
  assumes "pos < cap" and "e < cap" and "pos \<noteq> e"
  shows "(e + cap - ((pos + 1) mod cap)) mod cap < (e + cap - pos) mod cap"
proof (cases "pos < e")
  case True
  then have 1: "(pos + 1) mod cap = pos + 1" using assms by simp
  have 2: "(e + cap - (pos + 1)) mod cap = e - (pos + 1)"
    using True assms by (simp add: mod_if)
  have 3: "(e + cap - pos) mod cap = e - pos"
    using True assms by (simp add: mod_if)
  show ?thesis unfolding 1 2 3 using True by simp
next
  case False
  then have gt: "e < pos" using assms(3) by simp
  have 3: "(e + cap - pos) mod cap = e + cap - pos"
    using gt assms by simp
  show ?thesis
  proof (cases "pos + 1 = cap")
    case True
    then have "(pos + 1) mod cap = 0" by simp
    then have "(e + cap - ((pos + 1) mod cap)) mod cap = e" using assms by simp
    then show ?thesis unfolding 3 using True by simp
  next
    case False
    then have 1: "(pos + 1) mod cap = pos + 1" using assms by simp
    have 2: "(e + cap - (pos + 1)) mod cap = e + cap - (pos + 1)"
      using gt assms by simp
    show ?thesis unfolding 1 2 3 using gt assms by simp
  qed
qed

lemma occ_free_slot:
  assumes "tt_occ tab < length tab"
  shows "\<exists>i < length tab. te_hash (tab ! i) = 0"
  using assms unfolding tt_occ_def
  by (metis (mono_tags, lifting) all_nth_imp_all_set filter_True nat_neq_iff)

lemma occ_le: "tt_occ tab \<le> length tab"
  by (simp add: tt_occ_def)

lemma occ_update:
  assumes "i < length tab" and "te_hash (tab ! i) = 0" and "te_hash e \<noteq> 0"
  shows "tt_occ (tab[i := e]) = Suc (tt_occ tab)"
proof -
  have a: "tab = take i tab @ tab ! i # drop (Suc i) tab"
    using assms(1) by (simp add: id_take_nth_drop)
  have b: "tab[i := e] = take i tab @ e # drop (Suc i) tab"
    using assms(1) by (simp add: upd_conv_take_nth_drop)
  have "tt_occ tab = tt_occ (take i tab) + tt_occ (drop (Suc i) tab)"
    by (subst a) (simp add: tt_occ_def assms(2))
  moreover have "tt_occ (tab[i := e]) = tt_occ (take i tab) + 1 + tt_occ (drop (Suc i) tab)"
    by (subst b) (simp add: tt_occ_def assms(3))
  ultimately show ?thesis by simp
qed

lemma occ_replicate_zero: "tt_occ (replicate n TermEntry_zero) = 0"
  by (simp add: tt_occ_def TermEntry_zero_def)

lemma find_free_terminates:
  assumes "length tab = 2 ^ k" and "e < length tab" and "te_hash (tab ! e) = 0"
    and "pos < length tab"
  shows "\<exists>p < length tab. find_free tab (2 ^ k - 1) pos = Some p \<and> te_hash (tab ! p) = 0"
  using assms(4)
proof (induction "(e + length tab - pos) mod length tab" arbitrary: pos rule: less_induct)
  case less
  show ?case
  proof (cases "te_hash (tab ! pos) = 0")
    case True
    then have "find_free tab (2 ^ k - 1) pos = Some pos"
      by (subst find_free.simps) simp
    with True less.prems show ?thesis by blast
  next
    case False
    then have ne: "pos \<noteq> e" using assms(3) by auto
    let ?n = "(pos + 1) AND (2 ^ k - 1)"
    have n: "?n = (pos + 1) mod length tab"
      unfolding assms(1) by (rule and_mask_mod)
    have "0 < length tab" using less.prems by (cases tab) auto
    then have lt: "?n < length tab" unfolding n by (rule mod_less_divisor)
    have d: "(e + length tab - ?n) mod length tab < (e + length tab - pos) mod length tab"
      unfolding n using less.prems assms(2) ne by (rule cyc_dist)
    have "find_free tab (2 ^ k - 1) pos = find_free tab (2 ^ k - 1) ?n"
      using False by (subst find_free.simps) simp
    with less.hyps [OF d lt] show ?thesis by simp
  qed
qed

lemma tt_probe_terminates:
  assumes "length tab = 2 ^ k" and "e < length tab" and "te_hash (tab ! e) = 0"
    and "pos < length tab"
  shows "(\<exists>fresh p. tt_probe tab buf (2 ^ k - 1) h s len pos = Some (Inr (fresh, p)) \<and>
            p < length tab \<and> (fresh \<longleftrightarrow> te_hash (tab ! p) = 0)) \<or>
         (tt_probe tab buf (2 ^ k - 1) h s len pos = Some (Inl BadRead) \<and>
            (\<exists>i < length tab. te_hash (tab ! i) \<noteq> 0 \<and> te_buf (tab ! i) \<noteq> buf))"
  using assms(4)
proof (induction "(e + length tab - pos) mod length tab" arbitrary: pos rule: less_induct)
  case less
  show ?case
  proof (cases "te_hash (tab ! pos) = 0")
    case True
    then have "tt_probe tab buf (2 ^ k - 1) h s len pos = Some (Inr (True, pos))"
      by (subst tt_probe.simps) simp
    with True less.prems show ?thesis by blast
  next
    case False
    then have ne: "pos \<noteq> e" using assms(3) by auto
    let ?n = "(pos + 1) AND (2 ^ k - 1)"
    have n: "?n = (pos + 1) mod length tab"
      unfolding assms(1) by (rule and_mask_mod)
    have "0 < length tab" using less.prems by (cases tab) auto
    then have lt: "?n < length tab" unfolding n by (rule mod_less_divisor)
    have d: "(e + length tab - ?n) mod length tab < (e + length tab - pos) mod length tab"
      unfolding n using less.prems assms(2) ne by (rule cyc_dist)
    note ih = less.hyps [OF d lt]
    show ?thesis
    proof (cases "te_hash (tab ! pos) = h \<and> te_len (tab ! pos) = nat len mod 65536")
      case match: True
      show ?thesis
      proof (cases "te_buf (tab ! pos) = buf")
        case stale: False
        then have "tt_probe tab buf (2 ^ k - 1) h s len pos = Some (Inl BadRead)"
          using False match by (subst tt_probe.simps) simp
        with False stale less.prems show ?thesis by blast
      next
        case live: True
        show ?thesis
        proof (cases "memcmp (te_term (tab ! pos)) s (nat len) = Inr 0")
          case True
          then have "tt_probe tab buf (2 ^ k - 1) h s len pos = Some (Inr (False, pos))"
            using False match live by (subst tt_probe.simps) simp
          with False less.prems show ?thesis by blast
        next
          case nm: False
          have "tt_probe tab buf (2 ^ k - 1) h s len pos = tt_probe tab buf (2 ^ k - 1) h s len ?n"
            using False match live nm by (subst tt_probe.simps) simp
          with ih show ?thesis by simp
        qed
      qed
    next
      case nm: False
      have "tt_probe tab buf (2 ^ k - 1) h s len pos = tt_probe tab buf (2 ^ k - 1) h s len ?n"
        using False nm by (subst tt_probe.simps) auto
      with ih show ?thesis by simp
    qed
  qed
qed

lemma rehash_ok:
  assumes "cap = 2 ^ k" and "length tab = cap" and "tt_occ tab = used"
    and "used + tt_occ old < cap"
  shows "\<exists>tab'. rehash old (tab, cap, used) = Some (tab', cap, used + tt_occ old) \<and>
           length tab' = cap \<and> tt_occ tab' = used + tt_occ old"
  using assms(2,3,4)
proof (induction old arbitrary: tab used)
  case Nil
  then show ?case by (simp add: tt_occ_def)
next
  case (Cons e old)
  show ?case
  proof (cases "te_hash e = 0")
    case True
    then have o: "tt_occ (e # old) = tt_occ old" by (simp add: tt_occ_def)
    from Cons.IH [OF Cons.prems(1,2)] Cons.prems(3) True show ?thesis
      unfolding o by simp
  next
    case False
    then have o: "tt_occ (e # old) = Suc (tt_occ old)" by (simp add: tt_occ_def)
    have "tt_occ tab < length tab" using Cons.prems o by simp
    from occ_free_slot [OF this] obtain i where i: "i < length tab" "te_hash (tab ! i) = 0"
      by blast
    have lt: "length tab = 2 ^ k" using Cons.prems(1) assms(1) by simp
    have "unat (te_hash e) AND (cap - 1) = unat (te_hash e) mod 2 ^ k"
      unfolding assms(1) by (rule and_mask_mod)
    then have p0: "unat (te_hash e) AND (cap - 1) < length tab"
      using lt by simp
    from find_free_terminates [OF lt i p0] obtain p
      where p: "p < length tab" "find_free tab (cap - 1) (unat (te_hash e) AND (cap - 1)) = Some p"
        "te_hash (tab ! p) = 0"
      using assms(1) by auto
    have l': "length (tab[p := e]) = cap" using Cons.prems(1) by simp
    have o': "tt_occ (tab[p := e]) = used + 1"
      using occ_update [OF p(1,3) False] Cons.prems(2) by simp
    have b': "used + 1 + tt_occ old < cap" using Cons.prems(3) o by simp
    from Cons.IH [OF l' o' b'] False p(2) show ?thesis
      unfolding o by (simp add: Let_def)
  qed
qed

lemma maybe_grow_ready:
  assumes "tt_wf tt"
  shows "\<exists>tt1. maybe_grow tt = Some tt1 \<and> tt_ready tt1"
proof (cases "tt_used tt * 10 < tt_cap tt * 7")
  case True
  then show ?thesis using assms by (auto simp: maybe_grow_def tt_wf_def tt_ready_def)
next
  case False
  from assms obtain k where k: "tt_cap tt = 2 ^ k" and len: "length (tt_tab tt) = tt_cap tt"
    and used: "tt_used tt = tt_occ (tt_tab tt)" and b: "(tt_used tt - 1) * 10 < tt_cap tt * 7"
    by (auto simp: tt_wf_def)
  have le: "tt_used tt \<le> tt_cap tt" using used len occ_le [of "tt_tab tt"] by simp
  have cpos: "0 < tt_cap tt" using k by simp
  have c2: "tt_cap tt * 2 = 2 ^ Suc k" using k by simp
  have old: "take (tt_cap tt) (tt_tab tt) = tt_tab tt" using len by simp
  have "0 + tt_occ (tt_tab tt) < tt_cap tt * 2" using used le cpos by simp
  from rehash_ok [OF c2 _ _ this, of "replicate (tt_cap tt * 2) TermEntry_zero"]
  obtain tab' where r: "rehash (tt_tab tt) (replicate (tt_cap tt * 2) TermEntry_zero, tt_cap tt * 2, 0)
      = Some (tab', tt_cap tt * 2, tt_occ (tt_tab tt))"
    "length tab' = tt_cap tt * 2" "tt_occ tab' = tt_occ (tt_tab tt)"
    by (auto simp: occ_replicate_zero)
  have g: "maybe_grow tt = Some (tt\<lparr>tt_tab := tab', tt_cap := tt_cap tt * 2,
      tt_used := tt_occ (tt_tab tt)\<rparr>)"
    using False by (simp add: maybe_grow_def Let_def old r(1))
  have "tt_used tt * 10 < tt_cap tt * 2 * 7" using b le cpos by (cases "tt_cap tt = 1") auto
  then have "tt_ready (tt\<lparr>tt_tab := tab', tt_cap := tt_cap tt * 2, tt_used := tt_occ (tt_tab tt)\<rparr>)"
    using r(2,3) used c2 unfolding tt_ready_def by (auto intro: exI [of _ "Suc k"])
  with g show ?thesis by blast
qed

lemma fnv1a_64_nonzero: "fnv1a_64 s len \<noteq> 0"
  by (simp add: fnv1a_64_def Let_def)

lemma tt_wf_init: "tt_wf (TermTable_init (2 ^ k) arena_bytes)"
  by (auto simp: tt_wf_def TermTable_init_def occ_replicate_zero)

lemma tt_wf_clear: "tt_wf tt \<Longrightarrow> tt_wf (TermTable_clear tt)"
  by (auto simp: tt_wf_def TermTable_clear_def tt_occ_def filter_map o_def)

lemma get_or_create_ready:
  assumes "tt_ready tt1" and "0 < len"
  shows "(\<exists>fresh pos.
            tt_probe (tt_tab tt1) buf (tt_cap tt1 - 1) (fnv1a_64 s len) s len
              (unat (fnv1a_64 s len) AND (tt_cap tt1 - 1)) = Some (Inr (fresh, pos)) \<and>
            pos < tt_cap tt1 \<and> (fresh \<longleftrightarrow> te_hash (tt_tab tt1 ! pos) = 0)) \<or>
         (tt_probe (tt_tab tt1) buf (tt_cap tt1 - 1) (fnv1a_64 s len) s len
            (unat (fnv1a_64 s len) AND (tt_cap tt1 - 1)) = Some (Inl BadRead) \<and>
          (\<exists>i < tt_cap tt1. te_hash (tt_tab tt1 ! i) \<noteq> 0 \<and> te_buf (tt_tab tt1 ! i) \<noteq> buf))"
proof -
  from assms(1) obtain k where k: "tt_cap tt1 = 2 ^ k" and len: "length (tt_tab tt1) = tt_cap tt1"
    and used: "tt_used tt1 = tt_occ (tt_tab tt1)" and b: "tt_used tt1 * 10 < tt_cap tt1 * 7"
    by (auto simp: tt_ready_def)
  have "tt_occ (tt_tab tt1) < length (tt_tab tt1)" using used len b by simp
  from occ_free_slot [OF this] obtain e where e: "e < length (tt_tab tt1)"
    "te_hash (tt_tab tt1 ! e) = 0" by blast
  have lk: "length (tt_tab tt1) = 2 ^ k" using len k by simp
  have "unat (fnv1a_64 s len) AND (tt_cap tt1 - 1) = unat (fnv1a_64 s len) mod 2 ^ k"
    unfolding k by (rule and_mask_mod)
  then have p0: "unat (fnv1a_64 s len) AND (tt_cap tt1 - 1) < length (tt_tab tt1)"
    using lk by simp
  from tt_probe_terminates [OF lk e p0, of buf "fnv1a_64 s len" s len] show ?thesis
    unfolding k [symmetric] len by simp
qed

lemma arena_grow_terminates:
  assumes "0 < new_cap"
  shows "\<exists>c. arena_grow want new_cap = Some c"
  using assms
proof (induction "want - new_cap" arbitrary: new_cap rule: less_induct)
  case less
  show ?case
  proof (cases "want > new_cap")
    case False
    then show ?thesis by (subst arena_grow.simps) simp
  next
    case True
    then have "want - new_cap * 2 < want - new_cap" using less.prems by arith
    moreover have "0 < new_cap * 2" using less.prems by simp
    ultimately obtain c where "arena_grow want (new_cap * 2) = Some c"
      using less.hyps by blast
    then show ?thesis using True by (subst arena_grow.simps) simp
  qed
qed

lemma Arena_add_returns: "\<exists>a'. Arena_add a len = Some a'"
proof -
  have "0 < (if ar_cap a \<noteq> 0 then ar_cap a else 2 ^ 20)" by simp
  from arena_grow_terminates [OF this, of "ar_used a + (nat len + 1)"] obtain c
    where "arena_grow (ar_used a + (nat len + 1)) (if ar_cap a \<noteq> 0 then ar_cap a else 2 ^ 20)
      = Some c" by blast
  then show ?thesis by (simp add: Arena_add_def Let_def)
qed

text \<open>The example table: the rehash and the probe both step over occupied slots.\<close>

lemma example_hashes:
  "te_hash (example_entry ''world'') = 14341533079502921577"
  "te_hash (example_entry ''hello'') = 25347132070217633"
  "fnv1a_64 ''term'' 4 = 10904345442933622961"
  "te_hash TermEntry_zero = 0"
  by (simp_all add: example_entry_def fnv1a_64_def TermEntry_zero_def)

lemma example_slots:
  "unat (14341533079502921577 :: u64) AND 3 = 1"
  "unat (25347132070217633 :: u64) AND 3 = 1"
  "unat (10904345442933622961 :: u64) AND 3 = 1"
  "Suc (Suc 0) AND (3 :: nat) = 2"
  "Suc (Suc (Suc 0)) AND (3 :: nat) = 3"
proof -
  show "unat (14341533079502921577 :: u64) AND 3 = 1"
    "unat (25347132070217633 :: u64) AND 3 = 1"
    "unat (10904345442933622961 :: u64) AND 3 = 1" by simp_all
  have "(2 :: nat) AND 3 = 2" by simp
  then show "Suc (Suc 0) AND (3 :: nat) = 2" unfolding numeral_2_eq_2 .
  have "(3 :: nat) AND 3 = 3" by simp
  then show "Suc (Suc (Suc 0)) AND (3 :: nat) = 3" by (simp add: numeral_3_eq_3)
qed

lemma example_grow: "maybe_grow example_tt = Some example_grown"
proof -
  let ?W = "example_entry ''world''"
  let ?H = "example_entry ''hello''"
  let ?Z = TermEntry_zero
  have f1: "find_free [?Z, ?Z, ?Z, ?Z] 3 (Suc 0) = Some (Suc 0)"
    by (subst find_free.simps) (simp add: example_hashes)
  have f2: "find_free [?Z, ?W, ?Z, ?Z] 3 2 = Some 2"
    by (subst find_free.simps) (simp add: example_hashes)
  have f3: "find_free [?Z, ?W, ?Z, ?Z] 3 (Suc 0) = Some 2"
    by (subst find_free.simps) (simp add: f2 example_hashes example_slots)
  have r: "rehash [?W, ?H] ([?Z, ?Z, ?Z, ?Z], 4, 0) = Some ([?Z, ?W, ?H, ?Z], 4, 2)"
    by (simp add: Let_def example_hashes example_slots f1 f3)
  have rep: "replicate 4 ?Z = [?Z, ?Z, ?Z, ?Z]" by (simp add: numeral_eq_Suc)
  show ?thesis
    by (simp add: maybe_grow_def example_tt_def example_grown_def Let_def rep r
        del: rehash.simps)
qed

lemma example_insert:
  "get_or_create example_tt ''term'' 4 =
     Some (Inr (\<lparr>tt_tab = [TermEntry_zero, example_entry ''world'', example_entry ''hello'',
                            example_entry ''term''],
                 tt_cap = 4, tt_used = 3,
                 tt_arena = \<lparr>ar_buf = 0, ar_cap = 64, ar_used = 17\<rparr>\<rparr>, Some 3))"
proof -
  let ?W = "example_entry ''world''"
  let ?H = "example_entry ''hello''"
  let ?Z = TermEntry_zero
  let ?h = "10904345442933622961 :: u64"
  have p3: "tt_probe [?Z, ?W, ?H, ?Z] 0 3 ?h ''term'' 4 3 = Some (Inr (True, 3))"
    by (subst tt_probe.simps) (simp add: example_hashes)
  have p2: "tt_probe [?Z, ?W, ?H, ?Z] 0 3 ?h ''term'' 4 2 = Some (Inr (True, 3))"
    by (subst tt_probe.simps) (simp add: example_hashes example_slots p3)
  have p1: "tt_probe [?Z, ?W, ?H, ?Z] 0 3 ?h ''term'' 4 (Suc 0) = Some (Inr (True, 3))"
    by (subst tt_probe.simps) (simp add: example_hashes example_slots p2)
  have a: "Arena_add \<lparr>ar_buf = 0, ar_cap = 64, ar_used = 12\<rparr> 4 =
      Some \<lparr>ar_buf = 0, ar_cap = 64, ar_used = 17\<rparr>"
    by (simp add: Arena_add_def)
  have e: "\<lparr>te_hash = ?h, te_term = take (nat 4) ''term'' @ [NUL], te_buf = 0,
            te_len = nat 4 mod 65536, te_post = U32List_init\<rparr> = example_entry ''term''"
    by (simp add: example_entry_def example_hashes)
  have "get_or_create example_tt ''term'' 4 =
      Some (Inr (example_grown\<lparr>tt_tab := (tt_tab example_grown)[3 :=
                \<lparr>te_hash = ?h, te_term = take (nat 4) ''term'' @ [NUL], te_buf = 0,
                  te_len = nat 4 mod 65536, te_post = U32List_init\<rparr>],
              tt_used := tt_used example_grown + 1,
              tt_arena := \<lparr>ar_buf = 0, ar_cap = 64, ar_used = 17\<rparr>\<rparr>, Some 3))"
    unfolding get_or_create_def example_grow Let_def
    by (simp add: example_hashes example_slots example_grown_def p1 a del: take_Suc_Cons)
  then show ?thesis unfolding e by (simp add: example_grown_def)
qed

lemma example_tt_wf: "tt_wf example_tt"
proof -
  have "tt_cap example_tt = 2 ^ 1" by (simp add: example_tt_def)
  then have "\<exists>k. tt_cap example_tt = 2 ^ k" by (rule exI)
  then show ?thesis
    by (simp add: tt_wf_def) (simp add: example_tt_def tt_occ_def example_hashes)
qed

text \<open>
  C10. From a table in a state the builder can reach (\<open>tt_wf\<close>: the capacity a power of
  two, \<open>used\<close> the number of occupied slots, at most one insertion past the 70% mark),
  \<^verbatim>\<open>maybe_grow\<close> returns (its rehash loops terminate) with \<open>used * 10 < cap * 7\<close> and the
  capacity a power of two, so that an empty slot exists; the probe loop of
  \<^verbatim>\<open>get_or_create\<close> then terminates: with a slot of the table, and the table it leaves is
  again in such a state, or else at the read of a term stored before the arena was moved.
\<close>

theorem term_table_load_invariant:
  assumes "tt_wf tt" and "0 < len"
  shows "\<exists>tt1.
           maybe_grow tt = Some tt1 \<and>
           tt_used tt1 * 10 < tt_cap tt1 * 7 \<and> (\<exists>k. tt_cap tt1 = 2 ^ k) \<and>
           (\<exists>i < tt_cap tt1. te_hash (tt_tab tt1 ! i) = 0) \<and>
           ((\<exists>tt' pos. get_or_create tt s len = Some (Inr (tt', Some pos)) \<and>
                pos < tt_cap tt' \<and> tt_wf tt') \<or>
            (get_or_create tt s len = Some (Inl BadRead) \<and>
               (\<exists>i < tt_cap tt1. te_hash (tt_tab tt1 ! i) \<noteq> 0 \<and>
                  te_buf (tt_tab tt1 ! i) \<noteq> ar_buf (tt_arena tt1))))"
proof -
  from maybe_grow_ready [OF assms(1)] obtain tt1
    where g: "maybe_grow tt = Some tt1" and rd: "tt_ready tt1" by blast
  from rd obtain k where k: "tt_cap tt1 = 2 ^ k" and len: "length (tt_tab tt1) = tt_cap tt1"
    and used: "tt_used tt1 = tt_occ (tt_tab tt1)" and b: "tt_used tt1 * 10 < tt_cap tt1 * 7"
    by (auto simp: tt_ready_def)
  have "tt_occ (tt_tab tt1) < length (tt_tab tt1)" using used len b by simp
  from occ_free_slot [OF this] have free: "\<exists>i < tt_cap tt1. te_hash (tt_tab tt1 ! i) = 0"
    using len by simp
  let ?h = "fnv1a_64 s len"
  let ?buf = "ar_buf (tt_arena tt1)"
  let ?probe = "tt_probe (tt_tab tt1) ?buf (tt_cap tt1 - 1) ?h s len (unat ?h AND (tt_cap tt1 - 1))"
  let ?stale = "\<exists>i < tt_cap tt1. te_hash (tt_tab tt1 ! i) \<noteq> 0 \<and> te_buf (tt_tab tt1 ! i) \<noteq> ?buf"
  from get_or_create_ready [OF rd assms(2), of ?buf s]
  consider (slot) fresh pos where "?probe = Some (Inr (fresh, pos))" "pos < tt_cap tt1"
      "fresh \<longleftrightarrow> te_hash (tt_tab tt1 ! pos) = 0"
    | (stale) "?probe = Some (Inl BadRead)" ?stale
    by blast
  then have "(\<exists>tt' pos. get_or_create tt s len = Some (Inr (tt', Some pos)) \<and>
                pos < tt_cap tt' \<and> tt_wf tt') \<or>
            (get_or_create tt s len = Some (Inl BadRead) \<and> ?stale)"
  proof cases
    case stale
    then have "get_or_create tt s len = Some (Inl BadRead)"
      using assms(2) g by (simp add: get_or_create_def Let_def)
    with stale(2) show ?thesis by blast
  next
    case p: slot
    show ?thesis
    proof (cases fresh)
      case False
      then have "get_or_create tt s len = Some (Inr (tt1, Some pos))"
        using assms(2) g p(1) by (simp add: get_or_create_def Let_def)
      moreover have "tt_wf tt1"
        using k len used b unfolding tt_wf_def by (auto intro: exI [of _ k])
      ultimately show ?thesis using p(2) by blast
    next
      case True
      from Arena_add_returns obtain arena where a: "Arena_add (tt_arena tt1) len = Some arena"
        by blast
      let ?e = "\<lparr>te_hash = ?h, te_term = take (nat len) s @ [NUL], te_buf = ar_buf arena,
                 te_len = nat len mod 65536, te_post = U32List_init\<rparr>"
      let ?tt = "tt1\<lparr>tt_tab := (tt_tab tt1)[pos := ?e], tt_used := tt_used tt1 + 1,
                     tt_arena := arena\<rparr>"
      have e: "get_or_create tt s len = Some (Inr (?tt, Some pos))"
        using assms(2) g p(1) True a by (simp add: get_or_create_def Let_def)
      have "te_hash ?e \<noteq> 0" using fnv1a_64_nonzero by simp
      from occ_update [OF _ _ this, of pos "tt_tab tt1"] p(2,3) True len
      have "tt_occ ((tt_tab tt1)[pos := ?e]) = Suc (tt_occ (tt_tab tt1))" by simp
      then have "tt_wf ?tt"
        using k len used b unfolding tt_wf_def by (auto intro: exI [of _ k])
      with e p(2) show ?thesis by auto
    qed
  qed
  with g b k free show ?thesis by blast
qed

theorem term_table_load_invariant_witness:
  "tt_wf example_tt \<and> \<not> tt_used example_tt * 10 < tt_cap example_tt * 7 \<and>
   maybe_grow example_tt = Some example_grown \<and>
   tt_used example_grown * 10 < tt_cap example_grown * 7 \<and>
   (\<exists>tt'. get_or_create example_tt ''term'' 4 = Some (Inr (tt', Some 3)) \<and>
      tt_tab tt' = [TermEntry_zero, example_entry ''world'', example_entry ''hello'',
                    example_entry ''term''] \<and>
      tt_cap tt' = 4 \<and> tt_used tt' = 3 \<and> tt_wf tt')"
proof -
  have l: "(0 :: int) < 4" by simp
  from term_table_load_invariant [OF example_tt_wf l, of "''term''"] example_grow example_insert
    example_tt_wf
  show ?thesis by (auto simp: example_tt_def)
qed

section \<open>Properties of the per-document dedup set\<close>

lemma tt_occ_hash: "tt_occ tab = length (filter (\<lambda>h. h \<noteq> 0) (map te_hash tab))"
  by (simp add: tt_occ_def filter_map o_def)

lemma tt_wf_push_doc: "tt_wf tt \<Longrightarrow> tt_wf (tt_push_doc tt e doc_id)"
proof (cases e)
  case None
  then show "tt_wf tt \<Longrightarrow> tt_wf (tt_push_doc tt e doc_id)" by (simp add: tt_push_doc_def)
next
  case (Some pos)
  assume wf: "tt_wf tt"
  let ?x = "(tt_tab tt ! pos)\<lparr>te_post := push_unique_sorted (te_post (tt_tab tt ! pos)) doc_id\<rparr>"
  have "map te_hash ((tt_tab tt)[pos := ?x]) = map te_hash (tt_tab tt)"
  proof (cases "pos < length (tt_tab tt)")
    case True
    then have "(map te_hash (tt_tab tt))[pos := te_hash (tt_tab tt ! pos)] = map te_hash (tt_tab tt)"
      by (metis list_update_id nth_map)
    then show ?thesis by (simp add: map_update)
  next
    case False
    then have "length (tt_tab tt) \<le> pos" by simp
    then show ?thesis by (simp only: list_update_beyond)
  qed
  then have "tt_occ ((tt_tab tt)[pos := ?x]) = tt_occ (tt_tab tt)"
    by (simp only: tt_occ_hash)
  then show "tt_wf (tt_push_doc tt e doc_id)"
    using wf Some by (auto simp: tt_push_doc_def tt_wf_def)
qed

text \<open>
  C1 (as amended). When the dedup set is at or above 80% load (\<open>used * 10 \<ge> cap * 8\<close>),
  \<^verbatim>\<open>contains_or_add\<close> returns 0, "not already present", without inserting and without
  looking the term up; \<^verbatim>\<open>process_one_doc\<close> then hands the token to \<^verbatim>\<open>get_or_create\<close> and
  \<^verbatim>\<open>push_unique_sorted\<close> as it does for a term that is new in the document, so the term
  still contributes its posting.
\<close>

theorem contains_or_add_saturated:
  assumes "0 < len" and "ds_cap ds * 8 \<le> ds_used ds * 10"
  shows "contains_or_add ds s len = Some (Inr (0, ds)) \<and>
         index_token ds tt s len doc_id =
           (case get_or_create tt s len of
              None \<Rightarrow> None
            | Some (Inl err) \<Rightarrow> Some (Inl err)
            | Some (Inr (tt', e)) \<Rightarrow> Some (Inr (ds, tt_push_doc tt' e doc_id)))"
proof -
  have c: "contains_or_add ds s len = Some (Inr (0, ds))"
    using assms by (simp add: contains_or_add_def)
  then show ?thesis
    by (simp add: index_token_def)
qed

theorem contains_or_add_saturated_witness:
  "ds_cap example_dset * 8 \<le> ds_used example_dset * 10 \<and>
   contains_or_add (DocTermSet_init 1 64) (''a'' @ [NUL]) 1 = Some (Inr (0, example_dset)) \<and>
   contains_or_add example_dset (''b'' @ [NUL]) 1 = Some (Inr (0, example_dset)) \<and>
   contains_or_add example_dset (''a'' @ [NUL]) 1 = Some (Inr (0, example_dset))"
proof -
  have s: "ds_cap example_dset * 8 \<le> ds_used example_dset * 10"
    by (simp add: example_dset_def)
  have i: "contains_or_add (DocTermSet_init 1 64) (''a'' @ [NUL]) 1 = Some (Inr (0, example_dset))"
    by (simp add: contains_or_add_def DocTermSet_init_def fnv1a_64_def Let_def ds_probe.simps
        DocSetEntry_zero_def NUL_def example_dset_def Arena_init_def Arena_add_def)
  have l: "(0::int) < 1" by simp
  from contains_or_add_saturated [OF l s] i s show ?thesis by simp
qed

text \<open>
  C1 as stated fails. In a document \<open>a b\<close> read with a dedup set of one slot, the term \<open>b\<close>
  is first met when the set is full; \<^verbatim>\<open>contains_or_add\<close> answers 0, not "already present",
  and \<open>b\<close> receives the posting of document 5.
\<close>

theorem contains_or_add_saturated_counterexample:
  "contains_or_add example_dset (''b'' @ [NUL]) 1 = Some (Inr (0, example_dset)) \<and>
   map_option (map_sum id (\<lambda>(rc, tt, ds). (rc, tt_dump tt, ds = example_dset)))
     (process_one_doc (Some ''a b'') 5 (TermTable_init 4 64) (DocTermSet_init 1 64)) =
     Some (Inr (0, [(''a'', [5]), (''b'', [5])], True))"
proof -
  have 1: "contains_or_add example_dset (''b'' @ [NUL]) 1 = Some (Inr (0, example_dset))"
    by (simp add: contains_or_add_def example_dset_def)
  have 2: "map_option (map_sum id (\<lambda>(rc, tt, ds). (rc, tt_dump tt, ds = example_dset)))
     (process_one_doc (Some ''a b'') 5 (TermTable_init 4 64) (DocTermSet_init 1 64)) =
     Some (Inr (0, [(''a'', [5]), (''b'', [5])], True))"
    by (simp add: process_one_doc_def index_token_def contains_or_add_def get_or_create_def
      maybe_grow_def tt_push_doc_def push_unique_sorted_def ul_grow_def ul_list_def U32List_init_def
      TermTable_init_def DocTermSet_init_def DocTermSet_reset_def fnv1a_64_def Let_def
      ds_probe.simps tt_probe.simps is_ascii_alnum_def to_lower_ascii_def tt_dump_def
      TermEntry_zero_def DocSetEntry_zero_def NUL_def example_dset_def
      Arena_init_def Arena_add_def Arena_reset_def, code_simp)
  from 1 2 show ?thesis by (rule conjI)
qed

section \<open>Properties of the posting-list union\<close>

lemma emit_min:
  assumes "snd ok < length (fst ok)" and "sorted_wrt (<) (out_list ok @ [v])"
  shows "out_list (emit ok v) = out_list ok @ [v]"
    and "snd (emit ok v) = snd ok + 1"
    and "length (fst (emit ok v)) = length (fst ok)"
proof -
  obtain out k where ok: "ok = (out, k)" by (cases ok)
  have k: "k < length out" using assms(1) ok by simp
  have neq: "k = 0 \<or> out ! (k - 1) \<noteq> v"
  proof (cases "k = 0")
    case False
    then have "out ! (k - 1) \<in> set (take k out)"
      using k by (auto simp: in_set_conv_nth intro!: exI [of _ "k - 1"])
    then have "out ! (k - 1) < v"
      using assms(2) ok by (simp add: out_list_def sorted_wrt_append)
    then show ?thesis by auto
  qed simp
  then have e: "emit (out, k) v = (out[k := v], k + 1)"
    by (auto simp add: emit_def)
  show "out_list (emit ok v) = out_list ok @ [v]"
    unfolding ok e using k by (simp add: out_list_def take_Suc_conv_app_nth)
  show "snd (emit ok v) = snd ok + 1" unfolding ok e by simp
  show "length (fst (emit ok v)) = length (fst ok)" unfolding ok e by simp
qed

lemma merge_step_a:
  assumes inv: "merge_inv a b i j ok" and i: "i < length a"
    and le: "\<forall>w \<in> set (drop j b). a ! i < w"
  shows "merge_inv a b (i + 1) j (emit ok (a ! i))"
    and "merge_cont a b (i + 1) j (emit ok (a ! i)) = merge_cont a b i j ok"
proof -
  have d: "drop i a = a ! i # drop (i + 1) a"
    using i by (simp add: Cons_nth_drop_Suc)
  have s: "sorted_wrt (<) (out_list ok @ [a ! i])"
    using inv d by (auto simp: merge_inv_def sorted_wrt_append)
  have c: "snd ok < length (fst ok)" using inv i unfolding merge_inv_def by linarith
  note e = emit_min [OF c s]
  show "merge_inv a b (i + 1) j (emit ok (a ! i))"
    using inv d le i unfolding merge_inv_def e
    by (auto simp: sorted_wrt_append)
  show "merge_cont a b (i + 1) j (emit ok (a ! i)) = merge_cont a b i j ok"
    unfolding merge_cont_def e using d by auto
qed

lemma merge_inv_sym: "merge_inv a b i j ok = merge_inv b a j i ok"
  unfolding merge_inv_def by auto

lemma merge_cont_sym: "merge_cont a b i j ok = merge_cont b a j i ok"
  unfolding merge_cont_def by auto

lemma merge_step_b:
  assumes inv: "merge_inv a b i j ok" and j: "j < length b"
    and le: "\<forall>w \<in> set (drop i a). b ! j < w"
  shows "merge_inv a b i (j + 1) (emit ok (b ! j))"
    and "merge_cont a b i (j + 1) (emit ok (b ! j)) = merge_cont a b i j ok"
  using merge_step_a [of b a j i ok] inv j le
  by (simp_all add: merge_inv_sym [of a b] merge_cont_sym [of a b])

lemma merge_step_ab:
  assumes inv: "merge_inv a b i j ok" and i: "i < length a" and j: "j < length b"
    and eq: "a ! i = b ! j"
  shows "merge_inv a b (i + 1) (j + 1) (emit ok (a ! i))"
    and "merge_cont a b (i + 1) (j + 1) (emit ok (a ! i)) = merge_cont a b i j ok"
proof -
  have da: "drop i a = a ! i # drop (i + 1) a"
    using i by (simp add: Cons_nth_drop_Suc)
  have db: "drop j b = a ! i # drop (j + 1) b"
    using j eq by (simp add: Cons_nth_drop_Suc)
  have s: "sorted_wrt (<) (out_list ok @ [a ! i])"
    using inv da by (auto simp: merge_inv_def sorted_wrt_append)
  have c: "snd ok < length (fst ok)" using inv i unfolding merge_inv_def by linarith
  note e = emit_min [OF c s]
  show "merge_inv a b (i + 1) (j + 1) (emit ok (a ! i))"
    using inv da db i j unfolding merge_inv_def e
    by (auto simp: sorted_wrt_append)
  show "merge_cont a b (i + 1) (j + 1) (emit ok (a ! i)) = merge_cont a b i j ok"
    unfolding merge_cont_def e using da db by auto
qed

lemma merge_head_less:
  assumes "merge_inv a b i j ok" and "j < length b" and "x < b ! j"
  shows "\<forall>w \<in> set (drop j b). x < w"
proof -
  have db: "drop j b = b ! j # drop (j + 1) b"
    using assms(2) by (simp add: Cons_nth_drop_Suc)
  have "sorted_wrt (<) (drop j b)"
    using assms(1) by (simp add: merge_inv_def sorted_wrt_append)
  then have "\<forall>w \<in> set (drop (j + 1) b). b ! j < w"
    using db by (metis sorted_wrt.simps(2))
  then show ?thesis using db assms(3) by (metis order_less_trans set_ConsD)
qed

lemma merge_loop1_inv:
  assumes "merge_inv a b i j ok" and "merge_loop1 a b i j ok = (i', j', ok')"
  shows "merge_inv a b i' j' ok' \<and> merge_cont a b i' j' ok' = merge_cont a b i j ok \<and>
         (length a \<le> i' \<or> length b \<le> j')"
  using assms
proof (induction a b i j ok rule: merge_loop1.induct)
  case (1 a b i j ok)
  show ?case
  proof (cases "i < length a \<and> j < length b")
    case False
    then have "merge_loop1 a b i j ok = (i, j, ok)"
      by (subst merge_loop1.simps, rule if_not_P)
    with "1.prems" False show ?thesis by auto
  next
    case True
    then have i: "i < length a" and j: "j < length b" by simp_all
    consider (eq) "a ! i = b ! j" | (lt) "a ! i < b ! j" | (gt) "b ! j < a ! i"
      by (metis not_less_iff_gr_or_eq)
    then show ?thesis
    proof cases
      case eq
      then have r: "merge_loop1 a b i j ok = merge_loop1 a b (i + 1) (j + 1) (emit ok (a ! i))"
        using True by (subst merge_loop1.simps) (simp add: Let_def)
      note st = merge_step_ab [OF "1.prems"(1) i j eq]
      from "1.IH"(1) [OF True refl refl eq st(1)] "1.prems"(2) r st(2)
      show ?thesis by simp
    next
      case lt
      then have ne: "a ! i \<noteq> b ! j" by auto
      have r: "merge_loop1 a b i j ok = merge_loop1 a b (i + 1) j (emit ok (a ! i))"
        using True ne lt by (subst merge_loop1.simps) (simp add: Let_def)
      note st = merge_step_a [OF "1.prems"(1) i merge_head_less [OF "1.prems"(1) j lt]]
      from "1.IH"(2) [OF True refl refl ne lt st(1)] "1.prems"(2) r st(2)
      show ?thesis by simp
    next
      case gt
      then have ne: "a ! i \<noteq> b ! j" and nlt: "\<not> a ! i < b ! j" by auto
      have r: "merge_loop1 a b i j ok = merge_loop1 a b i (j + 1) (emit ok (b ! j))"
        using True ne nlt by (subst merge_loop1.simps) (simp add: Let_def)
      have "merge_inv b a j i ok" using "1.prems"(1) by (simp add: merge_inv_sym)
      note h = merge_head_less [OF this i gt]
      note st = merge_step_b [OF "1.prems"(1) j h]
      from "1.IH"(3) [OF True refl refl ne nlt st(1)] "1.prems"(2) r st(2)
      show ?thesis by simp
    qed
  qed
qed

lemma merge_loop2_id: "length a \<le> i \<Longrightarrow> merge_loop2 a i ok = ok"
  by (subst merge_loop2.simps) simp

lemma merge_loop2_a:
  assumes "merge_inv a b i j ok" and "length b \<le> j"
  shows "merge_inv a b (length a) j (merge_loop2 a i ok) \<and>
         merge_cont a b (length a) j (merge_loop2 a i ok) = merge_cont a b i j ok"
  using assms
proof (induction a i ok rule: merge_loop2.induct)
  case (1 a i ok)
  show ?case
  proof (cases "i < length a")
    case False
    then have r: "merge_loop2 a i ok = ok"
      by (subst merge_loop2.simps, rule if_not_P)
    have "merge_inv a b (length a) j ok" "merge_cont a b (length a) j ok = merge_cont a b i j ok"
      using False "1.prems" by (simp_all add: merge_inv_def merge_cont_def)
    then show ?thesis by (simp add: r)
  next
    case True
    have r: "merge_loop2 a i ok = merge_loop2 a (i + 1) (emit ok (a ! i))"
      using True by (subst merge_loop2.simps) simp
    have "\<forall>w \<in> set (drop j b). a ! i < w" using "1.prems"(2) by simp
    note st = merge_step_a [OF "1.prems"(1) True this]
    from "1.IH" [OF True st(1) "1.prems"(2)] st(2) r show ?thesis by simp
  qed
qed

lemma merge_loop2_b:
  assumes "merge_inv a b i j ok" and "length a \<le> i"
  shows "merge_inv a b i (length b) (merge_loop2 b j ok) \<and>
         merge_cont a b i (length b) (merge_loop2 b j ok) = merge_cont a b i j ok"
  using merge_loop2_a [of b a j i ok] assms
  by (simp add: merge_inv_sym [of a b] merge_cont_sym [of a b])

text \<open>
  C8. For strictly ascending arrays \<open>a\<close> and \<open>b\<close>, \<^verbatim>\<open>merge_union_u32(a, b)\<close> returns a
  strictly ascending array that holds a value exactly when \<open>a\<close> or \<open>b\<close> holds it.
\<close>

theorem merge_union_u32_correct:
  assumes "sorted_wrt (<) a" and "sorted_wrt (<) b"
  shows "sorted_wrt (<) (out_list (merge_union_u32 a b)) \<and>
         set (out_list (merge_union_u32 a b)) = set a \<union> set b"
proof -
  let ?ok0 = "(replicate (length a + length b) (0::u32), 0::nat)"
  obtain i j ok1 where l1: "merge_loop1 a b 0 0 ?ok0 = (i, j, ok1)"
    by (metis prod_cases3)
  have inv0: "merge_inv a b 0 0 ?ok0"
    using assms by (simp add: merge_inv_def out_list_def)
  have cont0: "merge_cont a b 0 0 ?ok0 = set a \<union> set b"
    by (simp add: merge_cont_def out_list_def)
  from merge_loop1_inv [OF inv0 l1]
  have inv1: "merge_inv a b i j ok1" and cont1: "merge_cont a b i j ok1 = set a \<union> set b"
    and fin: "length a \<le> i \<or> length b \<le> j"
    using cont0 by simp_all
  let ?ok2 = "merge_loop2 a i ok1"
  let ?ok3 = "merge_loop2 b j ?ok2"
  have res: "merge_union_u32 a b = ?ok3"
    by (simp add: merge_union_u32_def Let_def l1)
  have "\<exists>i' j'. length a \<le> i' \<and> length b \<le> j' \<and> merge_inv a b i' j' ?ok3 \<and>
      merge_cont a b i' j' ?ok3 = set a \<union> set b"
  proof (cases "length a \<le> i")
    case True
    then have "?ok2 = ok1" by (rule merge_loop2_id)
    with merge_loop2_b [OF inv1 True] cont1 True show ?thesis
      by (intro exI [of _ i] exI [of _ "length b"]) simp
  next
    case False
    with fin have j: "length b \<le> j" by simp
    from merge_loop2_a [OF inv1 j] cont1
    have "merge_inv a b (length a) j ?ok2" "merge_cont a b (length a) j ?ok2 = set a \<union> set b"
      by simp_all
    moreover have "?ok3 = ?ok2" using j by (rule merge_loop2_id)
    ultimately show ?thesis using j
      by (intro exI [of _ "length a"] exI [of _ j]) simp
  qed
  then obtain i' j' where "length a \<le> i'" "length b \<le> j'" "merge_inv a b i' j' ?ok3"
    "merge_cont a b i' j' ?ok3 = set a \<union> set b" by blast
  then show ?thesis
    unfolding res by (simp add: merge_inv_def merge_cont_def)
qed

theorem merge_union_u32_correct_witness:
  "sorted_wrt (<) [1, 3, 5, 7 :: u32] \<and> sorted_wrt (<) [2, 3, 4, 7, 9 :: u32] \<and>
   out_list (merge_union_u32 [1, 3, 5, 7] [2, 3, 4, 7, 9]) = [1, 2, 3, 4, 5, 7, 9] \<and>
   set (out_list (merge_union_u32 [1, 3, 5, 7] [2, 3, 4, 7, 9])) =
     set [1, 3, 5, 7 :: u32] \<union> set [2, 3, 4, 7, 9]"
proof -
  have a: "sorted_wrt (<) [1, 3, 5, 7 :: u32]" by simp
  have b: "sorted_wrt (<) [2, 3, 4, 7, 9 :: u32]" by simp
  have e: "out_list (merge_union_u32 [1, 3, 5, 7] [2, 3, 4, 7, 9]) = [1, 2, 3, 4, 5, 7, 9]"
    by code_simp
  from merge_union_u32_correct [OF a b] a b e show ?thesis by blast
qed

section \<open>Properties of the evaluator's combinators\<close>




subsection \<open>and_elems\<close>



subsection \<open>or_elems\<close>












subsection \<open>not_elems\<close>











subsection \<open>The full range\<close>




subsection \<open>The output vector\<close>












lemma uv_ok_clear: "uv_ok (U32Vec_clear v)"
  by (simp add: uv_ok_def U32Vec_clear_def)






subsection \<open>The laws\<close>





section \<open>Properties of the stemmer\<close>

lemma wr_eq: "0 \<le> i \<Longrightarrow> i < int (length b) \<Longrightarrow> wr b i c = Some (b[nat i := c])"
  by (simp add: wr_def)

lemma memcpy_at_Some:
  "0 \<le> start \<Longrightarrow> start + int (length s) \<le> int (length b) \<Longrightarrow>
   \<exists>b'. memcpy_at b start s = Some b' \<and> length b' = length b"
proof (induction s arbitrary: b start)
  case Nil
  then show ?case by simp
next
  case (Cons c cs)
  have w: "wr b start c = Some (b[nat start := c])"
    using Cons.prems by (simp add: wr_eq)
  have "\<exists>b'. memcpy_at (b[nat start := c]) (start + 1) cs = Some b' \<and>
      length b' = length (b[nat start := c])"
    using Cons.prems by (intro Cons.IH) simp_all
  then show ?case by (simp add: w)
qed

lemma set_to_eq:
  assumes "- 1 \<le> j" and "j + 1 + int (length s) < int (length b)"
  shows "set_to b s j = Some (set_to_buf b s j, j + int (length s))"
    and "length (set_to_buf b s j) = length b"
proof -
  obtain b1 where b1: "memcpy_at b (j + 1) s = Some b1" "length b1 = length b"
    using memcpy_at_Some [of "j + 1" s b] assms by auto
  have "j + 1 + int (length s) - 1 + 1 = j + 1 + int (length s)" by simp
  then have "wr b1 (j + 1 + int (length s) - 1 + 1) NUL = Some (b1[nat (j + 1 + int (length s)) := NUL])"
    using assms b1(2) by (simp only: wr_eq)
  then have e: "set_to b s j = Some (b1[nat (j + 1 + int (length s)) := NUL], j + int (length s))"
    by (simp add: set_to_def Let_def b1(1))
  then show "set_to b s j = Some (set_to_buf b s j, j + int (length s))"
    by (simp add: set_to_buf_def)
  show "length (set_to_buf b s j) = length b"
    using e b1(2) by (simp add: set_to_buf_def)
qed

lemma cut_to_eq:
  "- 1 \<le> k' \<Longrightarrow> k' + 1 < int (length b) \<Longrightarrow> cut_to b k' = Some (b[nat (k' + 1) := NUL], k')"
  by (simp add: cut_to_def wr_eq)

lemma ends_with_len: "ends_with b k s \<Longrightarrow> int (length s) \<le> k + 1"
  by (simp add: ends_with_def Let_def split: if_splits)

lemma m_measure_pos: "0 < m_measure b j \<Longrightarrow> 0 \<le> j"
  by (rule ccontr) (simp add: m_measure_def m_loop.simps)

lemma vowel_in_stem_pos: "vowel_in_stem b j \<Longrightarrow> 0 \<le> j"
  by (rule ccontr) (simp add: vowel_in_stem_def)

lemma doublec_pos: "doublec b k \<Longrightarrow> 1 \<le> k"
  by (simp add: doublec_def split: if_splits)

lemma step1a_post:
  assumes "1 \<le> k" and "k + 1 < int (length b)"
  shows "stem_post 0 (b, k, j) (step1a (b, k, j))"
  using assms
  by (auto simp: step1a_def stem_post_def cut_to_eq dest!: ends_with_len)

lemma step1b_post:
  assumes "0 \<le> k" and "k + 1 < int (length b)"
  shows "case step1b (b, k, j) of
           None \<Rightarrow> False
         | Some ((b', k', j'), flag) \<Rightarrow>
             length b' = length b \<and> 0 \<le> k' \<and> (if flag then k' + 2 \<le> k else k' \<le> k)"
  using assms
  by (auto simp: step1b_def Let_def cut_to_eq dest!: ends_with_len m_measure_pos vowel_in_stem_pos)

lemma step1b_flag_post:
  assumes "0 \<le> k" and "k + 2 < int (length b)"
  shows "stem_post 1 (b, k, j) (step1b_flag (b, k, j))"
  using assms
  by (auto simp: step1b_flag_def stem_post_def Let_def cut_to_eq set_to_eq
      dest!: ends_with_len doublec_pos)

lemma step1c_post:
  assumes "0 \<le> k" and "k + 1 < int (length b)"
  shows "stem_post 0 (b, k, j) (step1c (b, k, j))"
  using assms
  by (auto simp: step1c_def stem_post_def Let_def wr_eq)

lemma stem_postE:
  assumes "stem_post d (b, k, j) res"
  obtains b' k' j' where "res = Some (b', k', j')" "length b' = length b" "0 \<le> k'" "k' \<le> k + d"
  using assms by (auto simp: stem_post_def split: option.splits)

lemma stem_postI:
  "res = Some (b', k', j') \<Longrightarrow> length b' = length b \<Longrightarrow> 0 \<le> k' \<Longrightarrow> k' \<le> k + d \<Longrightarrow>
   stem_post d (b, k, j) res"
  by (simp add: stem_post_def)

lemma step1ab_post:
  assumes "1 \<le> k" and "k + 1 < int (length b)"
  shows "stem_post 0 (b, k, j) (step1ab (b, k, j))"
proof -
  from step1a_post [OF assms, of j] obtain b1 k1 j1
    where 1: "step1a (b, k, j) = Some (b1, k1, j1)" "length b1 = length b" "0 \<le> k1" "k1 \<le> k"
    by (auto elim: stem_postE)
  have r1: "k1 + 1 < int (length b1)" using 1 assms by simp
  from step1b_post [OF 1(3) r1, of j1] obtain b2 k2 j2 flag
    where 2: "step1b (b1, k1, j1) = Some ((b2, k2, j2), flag)" "length b2 = length b1" "0 \<le> k2"
      "if flag then k2 + 2 \<le> k1 else k2 \<le> k1"
    by (auto split: option.splits)
  have "\<exists>b3 k3 j3. (if flag then step1b_flag (b2, k2, j2) else Some (b2, k2, j2)) = Some (b3, k3, j3)
      \<and> length b3 = length b \<and> 0 \<le> k3 \<and> k3 \<le> k"
  proof (cases flag)
    case True
    then have "k2 + 2 < int (length b2)" using 2 1 assms by simp
    from step1b_flag_post [OF 2(3) this, of j2] True 2 1 show ?thesis
      by (auto elim!: stem_postE)
  next
    case False
    then show ?thesis using 2 1 by simp
  qed
  then obtain b3 k3 j3
    where 3: "(if flag then step1b_flag (b2, k2, j2) else Some (b2, k2, j2)) = Some (b3, k3, j3)"
      "length b3 = length b" "0 \<le> k3" "k3 \<le> k" by blast
  have "k3 + 1 < int (length b3)" using 3 assms by simp
  from step1c_post [OF 3(3) this, of j3] obtain b4 k4 j4
    where 4: "step1c (b3, k3, j3) = Some (b4, k4, j4)" "length b4 = length b3" "0 \<le> k4" "k4 \<le> k3"
    by (auto elim: stem_postE)
  have "step1ab (b, k, j) = Some (b4, k4, j4)"
    by (simp add: step1ab_def 1(1) 2(1) 3(1) 4(1))
  then show ?thesis using 4 3
    by (intro stem_postI [where b' = b4 and k' = k4 and j' = j4]) simp_all
qed

lemma step2_loop_post:
  assumes "\<forall>(suf, rep) \<in> set rules. length rep \<le> length suf"
    and "0 \<le> k" and "k + 1 < int (length b)"
  shows "stem_post 0 (b, k, j) (step2_loop rules (b, k, j))"
  using assms
proof (induction rules)
  case Nil
  then show ?case by (simp add: stem_post_def)
next
  case (Cons rule rules)
  obtain suf rep where rule: "rule = (suf, rep)" by (cases rule)
  have le: "length rep \<le> length suf" using Cons.prems(1) rule by simp
  show ?case
  proof (cases "ends_with b k suf")
    case False
    then show ?thesis using Cons by (simp add: rule)
  next
    case True
    note l = ends_with_len [OF True]
    show ?thesis
    proof (cases "0 < m_measure b (k - int (length suf))")
      case False
      then show ?thesis using True Cons.prems by (simp add: rule stem_post_def Let_def)
    next
      case m: True
      note p = m_measure_pos [OF m]
      have "- 1 \<le> k - int (length suf)"
        "k - int (length suf) + 1 + int (length rep) < int (length b)"
        using p le Cons.prems(3) by simp_all
      note e = set_to_eq [OF this]
      show ?thesis using True m p le Cons.prems
        by (simp add: rule stem_post_def Let_def e)
    qed
  qed
qed

lemma step2_post:
  assumes "0 \<le> k" and "k + 1 < int (length b)"
  shows "stem_post 0 (b, k, j) (step2 (b, k, j))"
  unfolding step2_def
  by (rule step2_loop_post [OF _ assms]) (simp add: step2_rules_def)

lemma step3_loop_post:
  assumes "\<forall>(suf, rep) \<in> set rules. length rep \<le> length suf"
    and "0 \<le> k" and "k + 1 < int (length b)"
  shows "stem_post 0 (b, k, j) (step3_loop rules (b, k, j))"
  using assms
proof (induction rules)
  case Nil
  then show ?case by (simp add: stem_post_def)
next
  case (Cons rule rules)
  obtain suf rep where rule: "rule = (suf, rep)" by (cases rule)
  have le: "length rep \<le> length suf" using Cons.prems(1) rule by simp
  show ?case
  proof (cases "ends_with b k suf")
    case False
    then show ?thesis using Cons by (simp add: rule)
  next
    case True
    note l = ends_with_len [OF True]
    show ?thesis
    proof (cases "0 < m_measure b (k - int (length suf))")
      case False
      then show ?thesis using True Cons.prems by (simp add: rule stem_post_def r_if_m_def Let_def)
    next
      case m: True
      note p = m_measure_pos [OF m]
      have "- 1 \<le> k - int (length suf)"
        "k - int (length suf) + 1 + int (length rep) < int (length b)"
        using p le Cons.prems(3) by simp_all
      note e = set_to_eq [OF this]
      show ?thesis using True m p le Cons.prems
        by (simp add: rule stem_post_def r_if_m_def Let_def e)
    qed
  qed
qed

lemma step3_post:
  assumes "0 \<le> k" and "k + 1 < int (length b)"
  shows "stem_post 0 (b, k, j) (step3 (b, k, j))"
  unfolding step3_def
  by (rule step3_loop_post [OF _ assms]) (simp add: step3_rules_def)

lemma step4_loop_post:
  assumes "0 \<le> k" and "k + 1 < int (length b)"
  shows "stem_post 0 (b, k, j) (step4_loop sufs (b, k, j))"
  using assms
proof (induction sufs)
  case Nil
  then show ?case by (simp add: stem_post_def)
next
  case (Cons suf sufs)
  show ?case
  proof (cases "ends_with b k suf")
    case False
    then show ?thesis using Cons by simp
  next
    case True
    note l = ends_with_len [OF True]
    show ?thesis
    proof (cases "1 < m_measure b (k - int (length suf))")
      case False
      then show ?thesis using True Cons.prems by (auto simp: stem_post_def Let_def)
    next
      case m: True
      then have "0 < m_measure b (k - int (length suf))" by simp
      note p = m_measure_pos [OF this]
      have "cut_to b (k - int (length suf)) =
          Some (b[nat (k - int (length suf) + 1) := NUL], k - int (length suf))"
        using p Cons.prems by (intro cut_to_eq) simp_all
      then show ?thesis using True m p Cons.prems
        by (auto simp: stem_post_def Let_def)
    qed
  qed
qed

lemma step4_post:
  assumes "0 \<le> k" and "k + 1 < int (length b)"
  shows "stem_post 0 (b, k, j) (step4 (b, k, j))"
  unfolding step4_def by (rule step4_loop_post [OF assms])

lemma step5a_post:
  assumes "0 \<le> k" and "k + 1 < int (length b)"
  shows "stem_post 0 (b, k, j) (step5a (b, k, j))"
proof (cases "ends_with b k ''e'' \<and> 0 < m_measure b (k - 1)")
  case True
  then have "0 \<le> k - 1" using m_measure_pos by blast
  then have "cut_to b (k - 1) = Some (b[nat (k - 1 + 1) := NUL], k - 1)"
    using assms by (intro cut_to_eq) simp_all
  then show ?thesis using True assms \<open>0 \<le> k - 1\<close>
    by (simp add: step5a_def stem_post_def Let_def)
next
  case False
  then show ?thesis using assms
    by (auto simp: step5a_def stem_post_def Let_def)
qed

lemma step5b_post:
  assumes "0 \<le> k" and "k + 1 < int (length b)"
  shows "stem_post 0 (b, k, j) (step5b (b, k, j))"
  using assms
  by (auto simp: step5b_def stem_post_def cut_to_eq dest!: doublec_pos)

lemma step5_post:
  assumes "0 \<le> k" and "k + 1 < int (length b)"
  shows "stem_post 0 (b, k, j) (step5 (b, k, j))"
proof -
  from step5a_post [OF assms, of j] obtain b1 k1 j1
    where 1: "step5a (b, k, j) = Some (b1, k1, j1)" "length b1 = length b" "0 \<le> k1" "k1 \<le> k"
    by (auto elim: stem_postE)
  have "k1 + 1 < int (length b1)" using 1 assms by simp
  from step5b_post [OF 1(3) this, of j1] obtain b2 k2 j2
    where 2: "step5b (b1, k1, j1) = Some (b2, k2, j2)" "length b2 = length b1" "0 \<le> k2" "k2 \<le> k1"
    by (auto elim: stem_postE)
  show ?thesis using 1 2 by (intro stem_postI [where b' = b2 and k' = k2 and j' = j2])
      (simp_all add: step5_def)
qed

lemma stem_steps:
  assumes "1 \<le> k" and "k + 1 < int (length b)"
  shows "\<exists>b' k' j'. porter_steps (b, k, j) = Some (b', k', j')
          \<and> length b' = length b \<and> 0 \<le> k' \<and> k' \<le> k"
proof -
  from step1ab_post [OF assms, of j] obtain b1 k1 j1
    where 1: "step1ab (b, k, j) = Some (b1, k1, j1)" "length b1 = length b" "0 \<le> k1" "k1 \<le> k"
    by (auto elim: stem_postE)
  have "k1 + 1 < int (length b1)" using 1 assms by simp
  from step2_post [OF 1(3) this, of j1] obtain b2 k2 j2
    where 2: "step2 (b1, k1, j1) = Some (b2, k2, j2)" "length b2 = length b1" "0 \<le> k2" "k2 \<le> k1"
    by (auto elim: stem_postE)
  have "k2 + 1 < int (length b2)" using 1 2 assms by simp
  from step3_post [OF 2(3) this, of j2] obtain b3 k3 j3
    where 3: "step3 (b2, k2, j2) = Some (b3, k3, j3)" "length b3 = length b2" "0 \<le> k3" "k3 \<le> k2"
    by (auto elim: stem_postE)
  have "k3 + 1 < int (length b3)" using 1 2 3 assms by simp
  from step4_post [OF 3(3) this, of j3] obtain b4 k4 j4
    where 4: "step4 (b3, k3, j3) = Some (b4, k4, j4)" "length b4 = length b3" "0 \<le> k4" "k4 \<le> k3"
    by (auto elim: stem_postE)
  have "k4 + 1 < int (length b4)" using 1 2 3 4 assms by simp
  from step5_post [OF 4(3) this, of j4] obtain b5 k5 j5
    where 5: "step5 (b4, k4, j4) = Some (b5, k5, j5)" "length b5 = length b4" "0 \<le> k5" "k5 \<le> k4"
    by (auto elim: stem_postE)
  show ?thesis using 1 2 3 4 5 by (simp add: porter_steps_def)
qed

lemma porter_stem_inplace_bound:
  assumes "0 \<le> len" and "len < int (length b)"
  shows "\<exists>b' n. porter_stem_inplace b len = Some (b', n) \<and> length b' = length b \<and>
           0 \<le> n \<and> n \<le> len \<and> (0 < len \<longrightarrow> 0 < n)"
proof (cases "len \<le> 2 \<or> \<not> has_letter b len")
  case True
  then show ?thesis using assms by (auto simp: porter_stem_inplace_def wr_eq)
next
  case False
  then have "1 \<le> len - 1" "len - 1 + 1 < int (length b)" using assms by simp_all
  from stem_steps [OF this, of 0] obtain b5 k j
    where s: "porter_steps (b, len - 1, 0) = Some (b5, k, j)"
      "length b5 = length b" "0 \<le> k" "k \<le> len - 1" by blast
  have w: "wr b5 (k + 1) NUL = Some (b5[nat (k + 1) := NUL])"
    using s assms by (intro wr_eq) simp_all
  have "porter_stem_inplace b len = Some (b5[nat (k + 1) := NUL], k + 1)"
    using False s(1,3) w
    by (simp add: porter_stem_inplace_def Let_def)
  then show ?thesis using s by simp
qed

text \<open>
  C9. On a word of length \<open>len\<close> held in a buffer with room for its terminator,
  \<^verbatim>\<open>stem_word_en\<close> returns a length of at most \<open>len\<close> and writes no cell outside the buffer
  (the result is not \<open>None\<close>); so the stem of a token of at most 255 bytes fits the caller's
  256-byte buffer. This holds for every content of the buffer, lowercase ASCII
  alphanumerics included.
\<close>

theorem stem_word_en_no_longer:
  assumes "length b = 256" and "0 \<le> len" and "len \<le> 255"
  shows "\<exists>b' n. stem_word_en b len = Some (b', n) \<and> 0 \<le> n \<and> n \<le> len \<and> length b' = 256"
proof -
  have "len < int (length b)" using assms by simp
  from porter_stem_inplace_bound [OF assms(2) this] assms(1,2) show ?thesis
    unfolding stem_word_en_def by auto
qed

theorem stem_word_en_no_longer_witness:
  "length (tok_buf ''caresses'') = 256 \<and>
   (\<exists>b'. stem_word_en (tok_buf ''caresses'') 8 = Some (b', 6) \<and> take 6 b' = ''caress'' \<and>
      length b' = 256)"
proof -
  have l: "length (tok_buf ''caresses'') = 256" by (simp add: tok_buf_def)
  have e: "map_option (\<lambda>(b', n). (take 6 b', n)) (stem_word_en (tok_buf ''caresses'') 8) =
      Some (''caress'', 6)"
    by code_simp
  from stem_word_en_no_longer [OF l, of 8] e l show ?thesis by auto
qed

section \<open>Properties of the term lookup\<close>

lemma lexlt_irrefl: "\<not> lexlt a a"
  by (induction a) auto

lemma lexlt_trans: "lexlt a b \<Longrightarrow> lexlt b c \<Longrightarrow> lexlt a c"
proof (induction a b arbitrary: c rule: lexlt.induct)
  case (2 y ys)
  then show ?case by (cases c) auto
next
  case (4 x xs y ys)
  then show ?case by (cases c) (auto intro: order_less_trans)
qed auto

lemma lexlt_total: "lexlt a b \<or> a = b \<or> lexlt b a"
  by (induction a b rule: lexlt.induct) auto

lemma lexlt_asym: "lexlt a b \<Longrightarrow> \<not> lexlt b a"
  using lexlt_trans lexlt_irrefl by blast

lemma lexlt_append_same: "lexlt (p @ u) (p @ v) = lexlt u v"
  by (induction p) auto

lemma lexlt_append_diff:
  "length p = length q \<Longrightarrow> p \<noteq> q \<Longrightarrow> lexlt (p @ u) (q @ v) = lexlt p q"
proof (induction p q rule: list_induct2)
  case Nil
  then show ?case by simp
next
  case (Cons x xs y ys)
  then show ?case by (cases "x = y") auto
qed

lemma memcmp_sign:
  assumes "m \<le> length a" and "m \<le> length b"
  shows "\<exists>c. memcmp a b m = Inr c \<and> (c = 0 \<longleftrightarrow> take m a = take m b) \<and>
          (c < 0 \<longleftrightarrow> lexlt (take m a) (take m b)) \<and> (0 < c \<longleftrightarrow> lexlt (take m b) (take m a))"
  using assms
proof (induction a b m rule: memcmp.induct)
  case (1 a b)
  then show ?case by simp
next
  case (2 x xs y ys n)
  show ?case
  proof (cases "x = y")
    case True
    with 2 show ?thesis by simp
  next
    case False
    then have "(of_char x :: nat) \<noteq> of_char y" by simp
    with False show ?thesis by auto
  qed
qed simp_all

text \<open>The three-way comparison both \<open>find_term\<close> and the sort comparator compute.\<close>

lemma cmp_sign:
  assumes "alen \<le> length a" and "blen \<le> length b"
  defines "m \<equiv> (if alen < blen then alen else blen)"
  shows "\<exists>c0. memcmp a b m = Inr c0 \<and>
    (let c = (if c0 = 0 then (if alen < blen then - 1 else if alen > blen then 1 else 0) else c0)
     in (c = 0 \<longleftrightarrow> take alen a = take blen b) \<and>
        (c < 0 \<longleftrightarrow> lexlt (take alen a) (take blen b)) \<and>
        (0 < c \<longleftrightarrow> lexlt (take blen b) (take alen a)))"
proof -
  have ma: "m \<le> length a" and mb: "m \<le> length b" and mle: "m \<le> alen" "m \<le> blen"
    using assms by (auto simp: m_def)
  from memcmp_sign [OF ma mb] obtain c0 where c0: "memcmp a b m = Inr c0"
    "c0 = 0 \<longleftrightarrow> take m a = take m b"
    "c0 < 0 \<longleftrightarrow> lexlt (take m a) (take m b)"
    "0 < c0 \<longleftrightarrow> lexlt (take m b) (take m a)" by blast
  define u where "u = take (alen - m) (drop m a)"
  define v where "v = take (blen - m) (drop m b)"
  have ta: "take alen a = take m a @ u"
    using mle(1) unfolding u_def by (metis le_add_diff_inverse take_add)
  have tb: "take blen b = take m b @ v"
    using mle(2) unfolding v_def by (metis le_add_diff_inverse take_add)
  have len: "length (take m a) = length (take m b)" using ma mb by simp
  have lu: "length u = alen - m" using assms(1) ma by (simp add: u_def)
  have lv: "length v = blen - m" using assms(2) mb by (simp add: v_def)
  show ?thesis
  proof (cases "c0 = 0")
    case False
    then have ne: "take m a \<noteq> take m b" using c0(2) by simp
    then have ne': "take m b \<noteq> take m a" by simp
    have "take alen a \<noteq> take blen b"
      unfolding ta tb using len ne by simp
    moreover have "lexlt (take alen a) (take blen b) = lexlt (take m a) (take m b)"
      unfolding ta tb using len ne by (rule lexlt_append_diff)
    moreover have "lexlt (take blen b) (take alen a) = lexlt (take m b) (take m a)"
      unfolding ta tb using len [symmetric] ne' by (rule lexlt_append_diff)
    ultimately show ?thesis using c0 False by (auto simp: Let_def)
  next
    case True
    then have eq: "take m a = take m b" using c0(2) by simp
    have l: "lexlt (take alen a) (take blen b) = lexlt u v"
      and g: "lexlt (take blen b) (take alen a) = lexlt v u"
      and e: "(take alen a = take blen b) = (u = v)"
      unfolding ta tb eq by (simp_all add: lexlt_append_same)
    consider (lt) "alen < blen" | (gt) "blen < alen" | (eq) "alen = blen" by linarith
    then show ?thesis
    proof cases
      case lt
      then have "u = []" "v \<noteq> []" using lu lv by (auto simp: m_def)
      then have "lexlt u v" "\<not> lexlt v u" "u \<noteq> v" by (cases v; simp)+
      with lt True c0(1) show ?thesis unfolding l g e by (simp add: Let_def)
    next
      case gt
      then have "v = []" "u \<noteq> []" using lu lv by (auto simp: m_def)
      then have "lexlt v u" "\<not> lexlt u v" "u \<noteq> v" by (cases u; simp)+
      with gt True c0(1) show ?thesis unfolding l g e by (simp add: Let_def)
    next
      case eq
      then have "u = []" "v = []" using lu lv by (auto simp: m_def)
      with eq True c0(1) show ?thesis unfolding l g e by (simp add: Let_def)
    qed
  qed
qed

lemma lexrec_cmp_lexlt:
  assumes "lr_term_off a + lr_term_len a \<le> length (ix_term_pool idx)"
    and "lr_term_off b + lr_term_len b \<le> length (ix_term_pool idx)"
  shows "(case lexrec_cmp_by_term (ix_term_pool idx) a b of Inr c \<Rightarrow> c < 0 | Inl e \<Rightarrow> False) =
         lexlt (lexrec_term idx a) (lexrec_term idx b)"
proof -
  let ?ta = "drop (lr_term_off a) (ix_term_pool idx)"
  let ?tb = "drop (lr_term_off b) (ix_term_pool idx)"
  have la: "lr_term_len a \<le> length ?ta" and lb: "lr_term_len b \<le> length ?tb"
    using assms by simp_all
  from cmp_sign [OF la lb] obtain c0 where
    c0: "memcmp ?ta ?tb (if lr_term_len a < lr_term_len b then lr_term_len a else lr_term_len b) = Inr c0"
    and s: "((if c0 = 0 then (if lr_term_len a < lr_term_len b then - 1
               else if lr_term_len a > lr_term_len b then 1 else 0) else c0) < 0)
           = lexlt (lexrec_term idx a) (lexrec_term idx b)"
    unfolding Let_def lexrec_term_def by blast
  have "lexrec_cmp_by_term (ix_term_pool idx) a b =
      Inr (if c0 = 0 then (if lr_term_len a < lr_term_len b then - 1
               else if lr_term_len a > lr_term_len b then 1 else 0) else c0)"
    unfolding lexrec_cmp_by_term_def Let_def c0 by simp
  then show ?thesis using s by simp
qed

lemma find_term_loop_step:
  assumes "lo < hi" and "lo + (hi - lo) div 2 < length (ix_lex idx)"
    and "lr_term_off (ix_lex idx ! (lo + (hi - lo) div 2)) +
         lr_term_len (ix_lex idx ! (lo + (hi - lo) div 2)) \<le> length (ix_term_pool idx)"
    and "tlen \<le> length t"
  defines "mid \<equiv> lo + (hi - lo) div 2"
  defines "S \<equiv> lexrec_term idx (ix_lex idx ! mid)"
  shows "find_term_loop idx t tlen lo hi =
    (if take tlen t = S then Inr (Some mid)
     else if lexlt (take tlen t) S then find_term_loop idx t tlen lo mid
     else find_term_loop idx t tlen (mid + 1) hi)"
    and "take tlen t \<noteq> S \<Longrightarrow> \<not> lexlt (take tlen t) S \<Longrightarrow> lexlt S (take tlen t)"
proof -
  let ?r = "ix_lex idx ! mid"
  let ?s = "drop (lr_term_off ?r) (ix_term_pool idx)"
  have ls: "lr_term_len ?r \<le> length ?s" using assms(3) by (simp add: mid_def)
  from cmp_sign [OF assms(4) ls] obtain c0 where
    c0: "memcmp t ?s (if tlen < lr_term_len ?r then tlen else lr_term_len ?r) = Inr c0"
    and s: "let c = (if c0 = 0 then (if tlen < lr_term_len ?r then - 1
               else if tlen > lr_term_len ?r then 1 else 0) else c0)
            in (c = 0 \<longleftrightarrow> take tlen t = S) \<and> (c < 0 \<longleftrightarrow> lexlt (take tlen t) S) \<and>
               (0 < c \<longleftrightarrow> lexlt S (take tlen t))"
    unfolding S_def lexrec_term_def by blast
  have nb: "\<not> length (ix_lex idx) \<le> mid" using assms(2) by (simp add: mid_def)
  show "find_term_loop idx t tlen lo hi =
    (if take tlen t = S then Inr (Some mid)
     else if lexlt (take tlen t) S then find_term_loop idx t tlen lo mid
     else find_term_loop idx t tlen (mid + 1) hi)"
    using assms(1) nb s
    by (subst find_term_loop.simps) (simp add: Let_def c0 mid_def [symmetric])
  show "take tlen t \<noteq> S \<Longrightarrow> \<not> lexlt (take tlen t) S \<Longrightarrow> lexlt S (take tlen t)"
    using lexlt_total by blast
qed

lemma find_term_loop_correct:
  assumes wf: "list_all (\<lambda>r. lr_term_off r + lr_term_len r \<le> length (ix_term_pool idx)) (ix_lex idx)"
    and sorted: "sorted_wrt (\<lambda>a b. lexlt (lexrec_term idx a) (lexrec_term idx b)) (ix_lex idx)"
    and tlen: "tlen \<le> length t"
    and bounds: "lo \<le> hi" "hi \<le> length (ix_lex idx)"
    and below: "\<forall>i < lo. lexlt (lexrec_term idx (ix_lex idx ! i)) (take tlen t)"
    and above: "\<forall>i. hi \<le> i \<and> i < length (ix_lex idx) \<longrightarrow>
                  lexlt (take tlen t) (lexrec_term idx (ix_lex idx ! i))"
  shows "(\<exists>i < length (ix_lex idx). lexrec_term idx (ix_lex idx ! i) = take tlen t \<and>
            find_term_loop idx t tlen lo hi = Inr (Some i)) \<or>
         ((\<forall>i < length (ix_lex idx). lexrec_term idx (ix_lex idx ! i) \<noteq> take tlen t) \<and>
            find_term_loop idx t tlen lo hi = Inr None)"
  using bounds below above
proof (induction "hi - lo" arbitrary: lo hi rule: less_induct)
  case less
  let ?T = "take tlen t"
  let ?R = "\<lambda>i. lexrec_term idx (ix_lex idx ! i)"
  show ?case
  proof (cases "lo < hi")
    case False
    then have r: "find_term_loop idx t tlen lo hi = Inr None"
      by (subst find_term_loop.simps, rule if_not_P)
    have "\<forall>i < length (ix_lex idx). ?R i \<noteq> ?T"
    proof (intro allI impI)
      fix i assume i: "i < length (ix_lex idx)"
      show "?R i \<noteq> ?T"
      proof (cases "i < lo")
        case True
        with less.prems(3) have "lexlt (?R i) ?T" by simp
        then show ?thesis using lexlt_irrefl by auto
      next
        case nl: False
        with False have "hi \<le> i" by simp
        with less.prems(4) i have "lexlt ?T (?R i)" by simp
        then show ?thesis using lexlt_irrefl by auto
      qed
    qed
    with r show ?thesis by simp
  next
    case True
    define mid where "mid = lo + (hi - lo) div 2"
    have m: "lo \<le> mid" "mid < hi" using True by (simp_all add: mid_def)
    then have ml: "mid < length (ix_lex idx)" using less.prems(2) by simp
    then have "ix_lex idx ! mid \<in> set (ix_lex idx)" by simp
    with wf have wfm: "lr_term_off (ix_lex idx ! mid) + lr_term_len (ix_lex idx ! mid)
        \<le> length (ix_term_pool idx)"
      by (simp add: list_all_iff)
    note st = find_term_loop_step [OF True ml [unfolded mid_def] wfm [unfolded mid_def] tlen,
        folded mid_def]
    consider (eq) "?T = ?R mid" | (lt) "?T \<noteq> ?R mid" "lexlt ?T (?R mid)"
      | (gt) "?T \<noteq> ?R mid" "\<not> lexlt ?T (?R mid)" by blast
    then show ?thesis
    proof cases
      case eq
      then have "find_term_loop idx t tlen lo hi = Inr (Some mid)" using st(1) by simp
      with eq ml show ?thesis by auto
    next
      case lt
      then have r: "find_term_loop idx t tlen lo hi = find_term_loop idx t tlen lo mid"
        using st(1) by simp
      have ab: "\<forall>i. mid \<le> i \<and> i < length (ix_lex idx) \<longrightarrow> lexlt ?T (?R i)"
      proof (intro allI impI)
        fix i assume i: "mid \<le> i \<and> i < length (ix_lex idx)"
        show "lexlt ?T (?R i)"
        proof (cases "i = mid")
          case True
          then show ?thesis using lt(2) by simp
        next
          case False
          with i have "mid < i" by simp
          then have "lexlt (?R mid) (?R i)"
            using sorted i by (simp add: sorted_wrt_iff_nth_less)
          with lt(2) show ?thesis by (rule lexlt_trans)
        qed
      qed
      have "mid - lo < hi - lo" using m by simp
      from less.hyps [OF this m(1) _ less.prems(3) ab] ml r show ?thesis by simp
    next
      case gt
      then have r: "find_term_loop idx t tlen lo hi = find_term_loop idx t tlen (mid + 1) hi"
        using st(1) by simp
      have g: "lexlt (?R mid) ?T" using st(2) gt by simp
      have be: "\<forall>i < mid + 1. lexlt (?R i) ?T"
      proof (intro allI impI)
        fix i assume i: "i < mid + 1"
        show "lexlt (?R i) ?T"
        proof (cases "i = mid")
          case True
          then show ?thesis using g by simp
        next
          case False
          with i have "i < mid" by simp
          then have "lexlt (?R i) (?R mid)"
            using sorted ml by (simp add: sorted_wrt_iff_nth_less)
          then show ?thesis using g by (rule lexlt_trans)
        qed
      qed
      have "hi - (mid + 1) < hi - lo" using m by simp
      from less.hyps [OF this _ less.prems(2) be less.prems(4)] m r show ?thesis by simp
    qed
  qed
qed

lemma lex_sorted_lexlt:
  assumes "lex_wf idx" and "lex_sorted idx"
  shows "sorted_wrt (\<lambda>a b. lexlt (lexrec_term idx a) (lexrec_term idx b)) (ix_lex idx)"
proof (rule sorted_wrt_mono_rel [OF _ assms(2) [unfolded lex_sorted_def]])
  fix a b
  assume "a \<in> set (ix_lex idx)" "b \<in> set (ix_lex idx)"
    and c: "case lexrec_cmp_by_term (ix_term_pool idx) a b of Inr c \<Rightarrow> c < 0 | Inl e \<Rightarrow> False"
  then have "lr_term_off a + lr_term_len a \<le> length (ix_term_pool idx)"
    "lr_term_off b + lr_term_len b \<le> length (ix_term_pool idx)"
    using assms(1) by (simp_all add: lex_wf_def list_all_iff)
  from lexrec_cmp_lexlt [OF this] c show "lexlt (lexrec_term idx a) (lexrec_term idx b)" by simp
qed

text \<open>
  C7. For a lexicon whose records are strictly ascending under the (bytes, length) order,
  \<^verbatim>\<open>find_term(t, tlen)\<close> returns 1 with the index of a record whose term is the \<open>tlen\<close>
  bytes at \<open>t\<close> if there is such a record, and returns 0 if there is none.
\<close>

theorem find_term_correct:
  assumes "lex_wf idx" and "lex_sorted idx" and "tlen \<le> length t"
  shows "((\<exists>i < length (ix_lex idx). lexrec_term idx (ix_lex idx ! i) = take tlen t) \<longrightarrow>
           (\<exists>i < length (ix_lex idx). find_term idx t tlen = Inr (Some i) \<and>
              lexrec_term idx (ix_lex idx ! i) = take tlen t)) \<and>
         ((\<forall>i < length (ix_lex idx). lexrec_term idx (ix_lex idx ! i) \<noteq> take tlen t) \<longrightarrow>
           find_term idx t tlen = Inr None)"
proof -
  have wf: "list_all (\<lambda>r. lr_term_off r + lr_term_len r \<le> length (ix_term_pool idx)) (ix_lex idx)"
    and tc: "unat (Index_term_count idx) = length (ix_lex idx)"
    using assms(1) by (simp_all add: lex_wf_def)
  note s = lex_sorted_lexlt [OF assms(1,2)]
  have "(\<exists>i < length (ix_lex idx). lexrec_term idx (ix_lex idx ! i) = take tlen t \<and>
            find_term_loop idx t tlen 0 (length (ix_lex idx)) = Inr (Some i)) \<or>
         ((\<forall>i < length (ix_lex idx). lexrec_term idx (ix_lex idx ! i) \<noteq> take tlen t) \<and>
            find_term_loop idx t tlen 0 (length (ix_lex idx)) = Inr None)"
    by (rule find_term_loop_correct [OF wf s assms(3)]) auto
  then show ?thesis unfolding find_term_def tc by blast
qed

theorem find_term_correct_witness:
  "lex_wf example_lex \<and> lex_sorted example_lex \<and>
   find_term example_lex ''abc'' 3 = Inr (Some 1) \<and>
   lexrec_term example_lex (ix_lex example_lex ! 1) = ''abc'' \<and>
   find_term example_lex ''abc'' 2 = Inr (Some 0) \<and>
   find_term example_lex ''ba'' 2 = Inr None"
proof -
  have wf: "lex_wf example_lex" by code_simp
  have so: "lex_sorted example_lex" by code_simp
  have l: "(3::nat) \<le> length ''abc''" by simp
  have e: "find_term example_lex ''abc'' 3 = Inr (Some 1)"
    "lexrec_term example_lex (ix_lex example_lex ! 1) = ''abc''"
    "find_term example_lex ''abc'' 2 = Inr (Some 0)"
    "find_term example_lex ''ba'' 2 = Inr None"
    by code_simp+
  from find_term_correct [OF wf so l] wf so e show ?thesis by simp
qed

section \<open>Stems of query terms\<close>

text \<open>
  A \<^verbatim>\<open>TERM\<close> token of the lexer has between 1 and 255 characters in its 256-byte buffer, and
  the stemmer leaves at least one character of a non-empty word: \<^verbatim>\<open>normalize_term\<close> never
  yields length 0 on a token of a query, so the branch of \<^verbatim>\<open>to_rpn\<close> that drops a term
  with an empty stem is not taken.
\<close>

lemma next_tok_term:
  assumes "next_tok s = (tok, s')" and "tk_type tok = T_TERM"
  shows "0 < tk_len tok \<and> tk_len tok \<le> 255 \<and> length (tk_text tok) = 256"
proof (cases "skip_spaces s")
  case Nil
  with assms show ?thesis by (auto simp: next_tok_def Tok_init_def)
next
  case (Cons c rest)
  with assms show ?thesis
    by (auto simp: next_tok_def Tok_init_def Let_def split: if_splits list.splits)
qed

lemma term_stem_nonempty:
  assumes "next_tok s = (tok, s')" and "tk_type tok = T_TERM"
  shows "\<exists>text len. normalize_term (tk_text tok) (tk_len tok) = Some (text, len) \<and> 0 < len"
proof -
  from next_tok_term [OF assms] have l: "0 < tk_len tok" "tk_len tok \<le> 255"
    "length (tk_text tok) = 256" by simp_all
  have "0 \<le> int (tk_len tok)" "int (tk_len tok) < int (length (tk_text tok))"
    using l by simp_all
  from porter_stem_inplace_bound [OF this] obtain b' n
    where p: "porter_stem_inplace (tk_text tok) (int (tk_len tok)) = Some (b', n)"
      "length b' = length (tk_text tok)" "0 \<le> n" "n \<le> int (tk_len tok)" "0 < n"
    using l(1) by auto
  have "wr b' n NUL \<noteq> None" using p(2,3,4) l by (simp add: wr_def)
  then obtain s2 where "wr b' n NUL = Some s2" by blast
  then show ?thesis using p(1,3,4,5) l
    by (simp add: normalize_term_def stem_word_en_def Let_def)
qed

section \<open>Properties of query evaluation\<close>

lemma tokens_END: "next_tok s = (tok, s') \<Longrightarrow> tk_type tok = T_END \<Longrightarrow> tokens s = []"
  by (subst tokens.simps) simp

lemma tokens_Cons:
  "next_tok s = (tok, s') \<Longrightarrow> tk_type tok \<noteq> T_END \<Longrightarrow> tokens s = tok # tokens s'"
  by (subst tokens.simps) simp

lemma out_ok_push:
  "out_ok out \<Longrightarrow> tp = T_AND \<or> tp = T_OR \<Longrightarrow> out_ok (out @ [RpnItem_init\<lparr>ri_type := tp\<rparr>])"
  by (auto simp: out_ok_def RpnItem_init_def)

lemma pop_ops_ok:
  "ops_ok ops \<Longrightarrow> out_ok out \<Longrightarrow> pop_ops opr ops out = (ops', out') \<Longrightarrow>
   ops_ok ops' \<and> out_ok out'"
proof (induction ops arbitrary: out)
  case Nil
  then show ?case by simp
next
  case (Cons tp ops)
  have ok: "ops_ok ops" and tp: "tp = T_AND \<or> tp = T_OR \<or> tp = T_LP"
    using Cons.prems(1) by (simp_all add: ops_ok_def)
  show ?case
  proof (cases "tp \<noteq> T_LP \<and> (precedence tp > precedence opr \<or>
      (precedence tp = precedence opr \<and> \<not> is_right_assoc opr))")
    case True
    then have r: "pop_ops opr ops (out @ [RpnItem_init\<lparr>ri_type := tp\<rparr>]) = (ops', out')"
      using Cons.prems(3) by (simp add: Let_def)
    have "out_ok (out @ [RpnItem_init\<lparr>ri_type := tp\<rparr>])"
      using Cons.prems(2) tp True by (intro out_ok_push) auto
    from Cons.IH [OF ok this r] show ?thesis .
  next
    case False
    then have "(ops', out') = (tp # ops, out)"
      using Cons.prems(3) by (auto simp: Let_def split: if_splits)
    then show ?thesis using Cons.prems(1,2) by simp
  qed
qed

lemma push_op_ok:
  assumes "ops_ok ops" and "out_ok out" and "opr = T_AND \<or> opr = T_OR"
    and "push_op opr (ops, out) = (ops', out')"
  shows "ops_ok ops' \<and> out_ok out'"
proof -
  obtain os us where p: "pop_ops opr ops out = (os, us)" by (cases "pop_ops opr ops out")
  from pop_ops_ok [OF assms(1,2) p] assms(3,4) p show ?thesis
    by (auto simp: push_op_def ops_ok_def)
qed

lemma pop_to_lp_ok:
  "ops_ok ops \<Longrightarrow> out_ok out \<Longrightarrow> pop_to_lp ops out = (ops', out') \<Longrightarrow>
   ops_ok ops' \<and> out_ok out'"
proof (induction ops arbitrary: out)
  case Nil
  then show ?case by simp
next
  case (Cons tp ops)
  have ok: "ops_ok ops" and tp: "tp = T_AND \<or> tp = T_OR \<or> tp = T_LP"
    using Cons.prems(1) by (simp_all add: ops_ok_def)
  show ?case
  proof (cases "tp \<noteq> T_LP")
    case True
    then have r: "pop_to_lp ops (out @ [RpnItem_init\<lparr>ri_type := tp\<rparr>]) = (ops', out')"
      using Cons.prems(3) by simp
    have "out_ok (out @ [RpnItem_init\<lparr>ri_type := tp\<rparr>])"
      using Cons.prems(2) tp True by (intro out_ok_push) auto
    from Cons.IH [OF ok this r] show ?thesis .
  next
    case False
    then have "(ops', out') = (tp # ops, out)"
      using Cons.prems(3) by simp
    then show ?thesis using Cons.prems(1,2) by simp
  qed
qed

lemma pop_rest_ok: "ops_ok ops \<Longrightarrow> out_ok out \<Longrightarrow> out_ok (pop_rest ops out)"
proof (induction ops arbitrary: out)
  case Nil
  then show ?case by simp
next
  case (Cons tp ops)
  have ok: "ops_ok ops" and tp: "tp = T_AND \<or> tp = T_OR \<or> tp = T_LP"
    using Cons.prems(1) by (simp_all add: ops_ok_def)
  show ?case
  proof (cases "tp = T_LP")
    case True
    then show ?thesis using Cons.IH [OF ok Cons.prems(2)] by simp
  next
    case False
    then have "out_ok (out @ [RpnItem_init\<lparr>ri_type := tp\<rparr>])"
      using Cons.prems(2) tp by (intro out_ok_push) auto
    from Cons.IH [OF ok this] False show ?thesis by simp
  qed
qed

lemma implicit_and_ok:
  assumes "ops_ok ops" and "out_ok out" and "implicit_and prev tok (ops, out) = (ops1, out1)"
  shows "ops_ok ops1 \<and> out_ok out1"
proof (cases "is_value_token (tk_type prev) \<and> can_start_value (tk_type tok)")
  case True
  then have "push_op T_AND (ops, out) = (ops1, out1)"
    using assms(3) by (simp add: implicit_and_def)
  from push_op_ok [OF assms(1,2) _ this] show ?thesis by simp
next
  case False
  then have "(ops1, out1) = (ops, out)"
    using assms(3) by (auto simp: implicit_and_def split: if_splits)
  then show ?thesis using assms(1,2) by simp
qed

lemma rpn_token_ok:
  assumes ok1: "ops_ok ops1 \<and> out_ok out1"
    and ty: "tk_type tok \<noteq> T_TERM" "tk_type tok \<noteq> T_NOT"
  shows "\<exists>ops' out'. rpn_token (ops1, out1) tok = Some (ops', out', tok) \<and>
           ops_ok ops' \<and> out_ok out'"
proof -
  consider (lp) "tk_type tok = T_LP" | (rp) "tk_type tok = T_RP"
    | (opr) "tk_type tok = T_AND \<or> tk_type tok = T_OR"
    | (other) "tk_type tok \<noteq> T_LP" "tk_type tok \<noteq> T_RP" "tk_type tok \<noteq> T_AND" "tk_type tok \<noteq> T_OR"
    by blast
  then show ?thesis
  proof cases
    case lp
    then show ?thesis using ok1 by (simp add: rpn_token_def ops_ok_def)
  next
    case rp
    obtain os us where p: "pop_to_lp ops1 out1 = (os, us)" by (cases "pop_to_lp ops1 out1")
    from pop_to_lp_ok [OF _ _ p] ok1 have "ops_ok os \<and> out_ok us" by simp
    then show ?thesis using rp p
      by (auto simp: rpn_token_def ops_ok_def split: list.splits)
  next
    case opr
    obtain os us where p: "push_op (tk_type tok) (ops1, out1) = (os, us)"
      by (cases "push_op (tk_type tok) (ops1, out1)")
    from push_op_ok [OF _ _ opr p] ok1 have "ops_ok os \<and> out_ok us" by simp
    then show ?thesis using opr p by (auto simp: rpn_token_def)
  next
    case other
    then show ?thesis using ok1 ty by (simp add: rpn_token_def)
  qed
qed

lemma rpn_step_ok:
  assumes "ops_ok ops" and "out_ok out"
    and "tk_type tok \<noteq> T_TERM" and "tk_type tok \<noteq> T_NOT"
  shows "\<exists>ops' out'. rpn_step (ops, out, prev) tok = Some (ops', out', tok) \<and>
           ops_ok ops' \<and> out_ok out'"
proof -
  obtain ops1 out1 where oo: "implicit_and prev tok (ops, out) = (ops1, out1)"
    by (cases "implicit_and prev tok (ops, out)")
  note ok1 = implicit_and_ok [OF assms(1,2) oo]
  from rpn_token_ok [OF ok1 assms(3,4)] show ?thesis
    by (simp add: rpn_step_def oo)
qed

lemma to_rpn_loop_ok:
  assumes "list_all (\<lambda>t. tk_type t \<noteq> T_TERM \<and> tk_type t \<noteq> T_NOT) (tokens s)"
    and "ops_ok (fst st)" and "out_ok (fst (snd st))"
  shows "\<exists>ops' out' prev'. to_rpn_loop s st = Some (ops', out', prev') \<and>
           ops_ok ops' \<and> out_ok out'"
  using assms
proof (induction s st rule: to_rpn_loop.induct)
  case (1 s st)
  obtain tok s' where n: "next_tok s = (tok, s')" by (cases "next_tok s")
  obtain ops out prev where st: "st = (ops, out, prev)" by (cases st)
  show ?case
  proof (cases "tk_type tok = T_END")
    case True
    then have "to_rpn_loop s st = Some st"
      using n by (subst to_rpn_loop.simps) simp
    then show ?thesis using "1.prems" st by simp
  next
    case False
    note tk = tokens_Cons [OF n False]
    have rest: "list_all (\<lambda>t. tk_type t \<noteq> T_TERM \<and> tk_type t \<noteq> T_NOT) (tokens s')"
      and ty: "tk_type tok \<noteq> T_TERM" "tk_type tok \<noteq> T_NOT"
      using "1.prems"(1) tk by simp_all
    show ?thesis
    proof (cases "tk_type tok = T_BAD")
      case True
      then have "to_rpn_loop s st = to_rpn_loop s' st"
        using n by (subst to_rpn_loop.simps) simp
      with "1.IH"(1) [OF n [symmetric] True rest "1.prems"(2,3)] show ?thesis by simp
    next
      case nb: False
      from rpn_step_ok [of ops out tok prev] "1.prems"(2,3) ty st
      obtain ops' out' where s1: "rpn_step st tok = Some (ops', out', tok)"
        "ops_ok ops'" "out_ok out'" by auto
      have "to_rpn_loop s st = to_rpn_loop s' (ops', out', tok)"
        using n nb False s1(1) by (subst to_rpn_loop.simps) simp
      with "1.IH"(2) [OF n [symmetric] nb False s1(1) rest] s1(2,3) show ?thesis by simp
    qed
  qed
qed

lemma to_rpn_ok:
  assumes "list_all (\<lambda>t. tk_type t \<noteq> T_TERM \<and> tk_type t \<noteq> T_NOT) (tokens line)"
  shows "\<exists>rpn. to_rpn line = Some rpn \<and> out_ok rpn"
proof -
  from to_rpn_loop_ok [OF assms, of "([], [], Tok_init)"]
  obtain ops out prev where "to_rpn_loop line ([], [], Tok_init) = Some (ops, out, prev)"
    "ops_ok ops" "out_ok out" by (auto simp: ops_ok_def out_ok_def)
  then show ?thesis by (simp add: to_rpn_def pop_rest_ok)
qed

lemma eval_item_empty:
  assumes "ri_type it = T_AND \<or> ri_type it = T_OR" and "list_all (\<lambda>l. l = []) st"
  shows "\<exists>st'. eval_item idx it (st, tmp) = Some (Inr (st', tmp)) \<and> list_all (\<lambda>l. l = []) st'"
  using assms
  by (cases st; cases "tl st")
     (auto simp: eval_item_def pop_safe_def split: list.splits)

lemma eval_loop_empty:
  assumes "out_ok rpn" and "list_all (\<lambda>l. l = []) st"
  shows "\<exists>st'. eval_loop idx rpn (st, tmp) = Some (Inr (st', tmp)) \<and> list_all (\<lambda>l. l = []) st'"
  using assms
proof (induction rpn arbitrary: st)
  case Nil
  then show ?case by simp
next
  case (Cons it rpn)
  then have "ri_type it = T_AND \<or> ri_type it = T_OR" "out_ok rpn"
    by (simp_all add: out_ok_def)
  from eval_item_empty [OF this(1) Cons.prems(2), of idx tmp] obtain st1
    where "eval_item idx it (st, tmp) = Some (Inr (st1, tmp))" "list_all (\<lambda>l. l = []) st1"
    by blast
  with Cons.IH [OF \<open>out_ok rpn\<close> this(2)] show ?case by simp
qed

text \<open>
  C3 (as amended). For every query line whose token stream holds neither a \<^verbatim>\<open>TERM\<close> nor
  a \<^verbatim>\<open>NOT\<close> token (only \<^verbatim>\<open>&\<close>, \<^verbatim>\<open>|\<close>, parentheses, whitespace and skipped bytes),
  evaluation yields the empty result, zero hits, on every index.
\<close>

theorem no_term_no_not_query_empty:
  assumes "list_all (\<lambda>t. tk_type t \<noteq> T_TERM \<and> tk_type t \<noteq> T_NOT) (tokens line)"
  shows "run_query idx line = Some (Inr [])"
proof -
  from to_rpn_ok [OF assms] obtain rpn where r: "to_rpn line = Some rpn" "out_ok rpn" by blast
  from eval_loop_empty [OF r(2), of "[]" idx U32Vec_init] obtain st
    where e: "eval_loop idx rpn ([], U32Vec_init) = Some (Inr (st, U32Vec_init))"
      "list_all (\<lambda>l. l = []) st" by auto
  have "fst (pop_safe st) = []" using e(2) by (cases st) (simp_all add: pop_safe_def)
  then show ?thesis by (simp add: run_query_def r(1) eval_rpn_def e(1))
qed

theorem no_term_no_not_query_empty_witness:
  "list_all (\<lambda>t. tk_type t \<noteq> T_TERM \<and> tk_type t \<noteq> T_NOT) (tokens ''(|) & ? ()'') \<and>
   run_query example_lex ''(|) & ? ()'' = Some (Inr [])"
proof -
  have a: "list_all (\<lambda>t. tk_type t \<noteq> T_TERM \<and> tk_type t \<noteq> T_NOT) (tokens ''(|) & ? ()'')"
    by code_simp
  from no_term_no_not_query_empty [OF a, of example_lex] a show ?thesis by simp
qed

text \<open>
  C3 as stated fails: the query \<^verbatim>\<open>!\<close> has no \<^verbatim>\<open>TERM\<close> token; its \<^verbatim>\<open>NOT\<close> pops the empty
  operand from the empty stack and pushes the complement, every document of the index.
\<close>

theorem no_term_query_counterexample:
  "list_all (\<lambda>t. tk_type t \<noteq> T_TERM) (tokens ''!'') \<and>
   run_query example_lex ''!'' = Some (Inr [0, 1, 2])"
  by code_simp

section \<open>Properties of the build\<close>

lemma main_lines_unusable:
  assumes "list_all (\<lambda>line. extract_json_string line ''doc_id'' 64 = None) lines"
  shows "main_lines corpus mem_limit st lines = Some (Inr st)"
  using assms by (induction lines) (simp_all add: main_line_def)

lemma tt_used_init: "tt_used (TermTable_init n arena_bytes) = 0"
  by (simp add: TermTable_init_def)

text \<open>
  C2 (as amended). On an empty corpus, a manifest none of whose lines yields a
  \<^verbatim>\<open>doc_id\<close>, and with no \<^verbatim>\<open>.blk\<close> file in the blocks directory, the build flushes no
  block, writes \<^verbatim>\<open>docs.bin\<close> with a valid header and \<open>doc_count = 0\<close>, and then ends in
  \<^verbatim>\<open>merge_blocks_to_index\<close> with exit status 1; \<^verbatim>\<open>lexicon.bin\<close> and \<^verbatim>\<open>postings.bin\<close>
  are not written.
\<close>

theorem empty_corpus_build:
  assumes "list_all (\<lambda>line. extract_json_string line ''doc_id'' 64 = None) lines"
    and "list_all (\<lambda>nm. \<not> is_blk_name nm) (map fst (fs_blocks fs0))"
  shows "indexer_main (Some lines) corpus mem_limit fs0 =
           Some (Inr (1, fs0\<lparr>fs_docs := Some docs_file_empty\<rparr>))"
proof -
  have d: "docs_write_to DocsBuilder_init = docs_file_empty"
    by (simp add: docs_write_to_def DocsBuilder_init_def docs_file_empty_def)
  have n: "filter is_blk_name (map fst (fs_blocks fs0)) = []"
    using assms(2) by (simp add: filter_empty_conv list_all_iff)
  have m: "merge_blocks_to_index (fs0\<lparr>fs_docs := Some docs_file_empty\<rparr>) =
      Some (Some (Exit 1), fs0\<lparr>fs_docs := Some docs_file_empty\<rparr>)"
    by (simp add: merge_blocks_to_index_def n)
  show ?thesis
    using assms(1)
    by (simp add: indexer_main_def Let_def main_lines_unusable tt_used_init d m)
qed

theorem empty_corpus_build_witness:
  "list_all (\<lambda>line. extract_json_string line ''doc_id'' 64 = None) [''{}'', ''{\"title\": \"t\"}''] \<and>
   indexer_main (Some [''{}'', ''{\"title\": \"t\"}'']) (\<lambda>d. None) 536870912 fs_empty =
     Some (Inr (1, fs_empty\<lparr>fs_docs := Some docs_file_empty\<rparr>))"
proof -
  have a: "list_all (\<lambda>line. extract_json_string line ''doc_id'' 64 = None)
      [''{}'', ''{\"title\": \"t\"}'']"
    by (simp add: extract_json_string_def c_str_def NUL_def)
  have b: "list_all (\<lambda>nm. \<not> is_blk_name nm) (map fst (fs_blocks fs_empty))"
    by (simp add: fs_empty_def)
  from empty_corpus_build [OF a b] a show ?thesis by simp
qed

text \<open>
  C2 as stated fails: with an empty manifest and an empty output directory the build ends
  with exit status 1, and of the three files only \<^verbatim>\<open>docs.bin\<close> exists.
\<close>

theorem empty_corpus_build_counterexample:
  "indexer_main (Some []) (\<lambda>d. None) 536870912 fs_empty =
     Some (Inr (1,
           \<lparr>fs_blocks = [], fs_docs = Some docs_file_empty, fs_lex = None, fs_post = None\<rparr>))"
  by (simp add: indexer_main_def Let_def tt_used_init merge_blocks_to_index_def fs_empty_def
      docs_write_to_def DocsBuilder_init_def docs_file_empty_def)

end
